theory Spec2Isabelle
  imports Complex_Main "HOL-Library.AList"
begin

section \<open>Conventions of the embedding\<close>

text \<open>
  The Python sources of \<^verbatim>\<open>johny\<close> are embedded as follows.
  \<^item> A Python \<^verbatim>\<open>float\<close> is a \<^typ>\<open>real\<close>: the four arithmetic operations and the
    comparisons are exact, their rounding and NaN are not modelled. The library function
    \<^verbatim>\<open>math.exp\<close>, which underflows to \<^verbatim>\<open>0.0\<close> and raises \<^verbatim>\<open>OverflowError\<close>, is a
    parameter of the functions that call it.
  \<^item> A Python \<^verbatim>\<open>dict\<close> is an association list in insertion order; \<^const>\<open>map_of\<close> is
    the lookup, \<^const>\<open>AList.update\<close> the assignment \<^verbatim>\<open>d[k] = v\<close> (in place for a key
    that is present, at the end for a new key).
  \<^item> A Python \<^verbatim>\<open>set\<close> is the list of its elements in the order in which the set is
    iterated. That order is not specified by Python; no theorem below depends on it.
  \<^item> An exception is a value of the type \<open>error\<close>. A method that mutates \<^verbatim>\<open>self\<close>
    returns the state it leaves behind together with its result, also when it raises.
  \<^item> The clock (\<^verbatim>\<open>datetime.utcnow()\<close>) and the parsing and arithmetic of the
    \<^verbatim>\<open>datetime\<close> library are parameters of the functions that use them.
\<close>

type_synonym topic_id = string

datatype error =
    TopicNotFound topic_id
  | PrerequisiteTopicNotFound topic_id
  | WouldCreateCycle topic_id topic_id
  | KeyError topic_id
  | NotAValidMasteryLevel int
  | ZeroDivisionError
  | OverflowError
  | TargetRetentionOutOfRange
  | InvalidIsoformat string

text \<open>The truth value of an \<^verbatim>\<open>Optional[str]\<close>: neither \<^verbatim>\<open>None\<close> nor the empty string.\<close>

definition truthy :: "string option \<Rightarrow> bool" where
  "truthy s = (case s of None \<Rightarrow> False | Some t \<Rightarrow> t \<noteq> [])"

section \<open>Mastery levels (\<^verbatim>\<open>mastery/levels.py\<close>)\<close>

datatype MasteryLevel = UNKNOWN | INTRODUCED | DEVELOPING | PROFICIENT | MASTERED | FLUENT

fun level_value :: "MasteryLevel \<Rightarrow> int" where
  "level_value UNKNOWN = 0"
| "level_value INTRODUCED = 1"
| "level_value DEVELOPING = 2"
| "level_value PROFICIENT = 3"
| "level_value MASTERED = 4"
| "level_value FLUENT = 5"

text \<open>The call \<^verbatim>\<open>MasteryLevel(n)\<close> of the enumeration: a \<^verbatim>\<open>ValueError\<close> outside 0..5.\<close>

definition MasteryLevel_of :: "int \<Rightarrow> error + MasteryLevel" where
  "MasteryLevel_of n =
     (if n = 0 then Inr UNKNOWN
      else if n = 1 then Inr INTRODUCED
      else if n = 2 then Inr DEVELOPING
      else if n = 3 then Inr PROFICIENT
      else if n = 4 then Inr MASTERED
      else if n = 5 then Inr FLUENT
      else Inl (NotAValidMasteryLevel n))"

fun level_name_lower :: "MasteryLevel \<Rightarrow> string" where
  "level_name_lower UNKNOWN = ''unknown''"
| "level_name_lower INTRODUCED = ''introduced''"
| "level_name_lower DEVELOPING = ''developing''"
| "level_name_lower PROFICIENT = ''proficient''"
| "level_name_lower MASTERED = ''mastered''"
| "level_name_lower FLUENT = ''fluent''"

text \<open>
  \<^verbatim>\<open>MasteryLevel.from_score\<close>. The members are integers (\<^verbatim>\<open>IntEnum\<close>), so \<^verbatim>\<open>target\<close> and
  the comparisons are on the integer values.
\<close>

definition from_score :: "real \<Rightarrow> MasteryLevel \<Rightarrow> error + MasteryLevel" where
  "from_score sc current_level =
     (let cur = level_value current_level;
          target =
            (if sc \<ge> 0.95 then level_value FLUENT
             else if sc \<ge> 0.80 then level_value MASTERED
             else if sc \<ge> 0.60 then level_value PROFICIENT
             else if sc \<ge> 0.30 then level_value DEVELOPING
             else max (level_value INTRODUCED) (cur - 1))
      in if target > cur then MasteryLevel_of (min (cur + 1) target)
         else if sc < 0.3 \<and> cur > level_value INTRODUCED then MasteryLevel_of (cur - 1)
         else Inr current_level)"

section \<open>Mastery records (\<^verbatim>\<open>mastery/tracker.py\<close>)\<close>

record PracticeEvent =
  timestamp :: string
  score :: real
  level_before :: int
  level_after :: int
  problem_type :: string
  time_spent_seconds :: int

record MasteryRecord =
  topic_id :: topic_id
  level :: MasteryLevel
  last_practiced :: "string option"
  practice_count :: int
  total_time_seconds :: int
  average_score :: real
  history :: "PracticeEvent list"
  stability :: real
  last_review :: "string option"

text \<open>The constructor \<^verbatim>\<open>MasteryRecord(topic_id=t)\<close> with the defaults of the dataclass.\<close>

definition new_record :: "topic_id \<Rightarrow> MasteryRecord" where
  "new_record t =
     \<lparr>topic_id = t, level = UNKNOWN, last_practiced = None, practice_count = 0,
      total_time_seconds = 0, average_score = 0, history = [], stability = 1,
      last_review = None\<rparr>"

text \<open>
  \<^verbatim>\<open>MasteryRecord.record_practice\<close>; \<open>now\<close> is the reading of
  \<^verbatim>\<open>datetime.utcnow().isoformat()\<close>. The result is the returned level (or the exception)
  and the record as the call leaves it: \<open>from_score\<close> raises before any field is
  written, the division of the running average after the counters and timestamps are.
\<close>

definition record_practice ::
  "string \<Rightarrow> MasteryRecord \<Rightarrow> real \<Rightarrow> string \<Rightarrow> int \<Rightarrow> (error + MasteryLevel) \<times> MasteryRecord" where
  "record_practice now self sc ptype spent =
     (case from_score sc (level self) of
        Inl e \<Rightarrow> (Inl e, self)
      | Inr new_level \<Rightarrow>
          (let n = practice_count self + 1;
               s1 = self\<lparr>level := new_level, practice_count := n,
                         total_time_seconds := total_time_seconds self + spent,
                         last_practiced := Some now, last_review := Some now\<rparr>
           in if n = 0 then (Inl ZeroDivisionError, s1)
              else
                (let avg = (average_score self * real_of_int (n - 1) + sc) / real_of_int n;
                     stab = (if sc \<ge> 0.7 then min 10 (stability self * 1.2)
                             else if sc < 0.4 then max 0.5 (stability self * 0.8)
                             else stability self);
                     event = \<lparr>timestamp = now, score = sc,
                              level_before = level_value (level self),
                              level_after = level_value new_level,
                              problem_type = ptype, time_spent_seconds = spent\<rparr>;
                     h = history self @ [event];
                     h' = (if length h > 50 then drop (length h - 50) h else h)
                 in (Inr new_level,
                     s1\<lparr>average_score := avg, stability := stab, history := h'\<rparr>))))"

text \<open>
  \<^verbatim>\<open>MasteryTracker\<close>: the dictionary of records. Loading and saving the state file change
  no record and are left out.
\<close>

record MasteryTracker =
  records :: "(topic_id \<times> MasteryRecord) list"

text \<open>\<^verbatim>\<open>MasteryTracker.get_record\<close>: the record of the topic, created when it is missing.\<close>

definition get_record :: "MasteryTracker \<Rightarrow> topic_id \<Rightarrow> MasteryRecord \<times> MasteryTracker" where
  "get_record self t =
     (case map_of (records self) t of
        Some r \<Rightarrow> (r, self)
      | None \<Rightarrow> (new_record t, self\<lparr>records := AList.update t (new_record t) (records self)\<rparr>))"

text \<open>
  \<^verbatim>\<open>MasteryTracker.record_practice\<close>. The record object is mutated in place, so the entry
  of the dictionary carries the update.
\<close>

definition tracker_record_practice ::
  "string \<Rightarrow> MasteryTracker \<Rightarrow> topic_id \<Rightarrow> real \<Rightarrow> string \<Rightarrow> int
     \<Rightarrow> (error + MasteryLevel) \<times> MasteryTracker" where
  "tracker_record_practice now self t sc ptype spent =
     (case get_record self t of
        (r, self1) \<Rightarrow>
          (case record_practice now r sc ptype spent of
             (res, r') \<Rightarrow> (res, self1\<lparr>records := AList.update t r' (records self1)\<rparr>)))"

text \<open>
  \<^verbatim>\<open>MasteryTracker.apply_fire_credit\<close>: one round of the loop over
  \<^verbatim>\<open>fire_weights.items()\<close>, and the loop. \<open>utcnow k\<close> is the reading of the clock taken
  while the entry of key \<open>k\<close> is handled.
\<close>

definition fire_credit_step ::
  "(topic_id \<Rightarrow> string) \<Rightarrow> real \<Rightarrow> MasteryTracker \<Rightarrow> topic_id \<times> real \<Rightarrow> MasteryTracker" where
  "fire_credit_step utcnow base_score self kv =
     (case kv of
        (prereq_id, weight) \<Rightarrow>
          (let adjusted_score = base_score * weight
           in if adjusted_score \<ge> 0.3 then
                (case get_record self prereq_id of
                   (r, self1) \<Rightarrow>
                     if truthy (last_review r) then
                       self1\<lparr>records :=
                         AList.update prereq_id
                           (r\<lparr>stability := min 10 (stability r * (1 + 0.1 * weight)),
                              last_review := Some (utcnow prereq_id)\<rparr>)
                           (records self1)\<rparr>
                     else self1)
              else self))"

definition apply_fire_credit ::
  "(topic_id \<Rightarrow> string) \<Rightarrow> MasteryTracker \<Rightarrow> topic_id \<Rightarrow> (topic_id \<times> real) list \<Rightarrow> real
     \<Rightarrow> MasteryTracker" where
  "apply_fire_credit utcnow self t fire_weights base_score =
     foldl (fire_credit_step utcnow base_score) self fire_weights"

text \<open>A call of one of the two mutating methods of the tracker, with its clock readings.\<close>

datatype tracker_call =
    RecordPractice string topic_id real string int
  | ApplyFireCredit "topic_id \<Rightarrow> string" topic_id "(topic_id \<times> real) list" real

fun exec_call :: "MasteryTracker \<Rightarrow> tracker_call \<Rightarrow> MasteryTracker" where
  "exec_call self (RecordPractice now t sc ptype spent) =
     snd (tracker_record_practice now self t sc ptype spent)"
| "exec_call self (ApplyFireCredit utcnow t fire_weights base_score) =
     apply_fire_credit utcnow self t fire_weights base_score"

definition exec_calls :: "MasteryTracker \<Rightarrow> tracker_call list \<Rightarrow> MasteryTracker" where
  "exec_calls self cs = foldl exec_call self cs"

section \<open>Decay model (\<^verbatim>\<open>review/ebbinghaus.py\<close>)\<close>

text \<open>
  \<^verbatim>\<open>calculate_retention\<close>. \<open>math_exp\<close> stands for \<^verbatim>\<open>math.exp\<close> on doubles: its result, or
  the exception it raises.
\<close>

definition calculate_retention :: "(real \<Rightarrow> error + real) \<Rightarrow> real \<Rightarrow> real \<Rightarrow> error + real" where
  "calculate_retention math_exp days_since_review stab =
     (if stab \<le> 0 then Inr 0
      else
        (case math_exp (- days_since_review / stab) of
           Inl e \<Rightarrow> Inl e
         | Inr ret \<Rightarrow> Inr (max 0 (min 1 ret))))"

text \<open>
  A function with the range behaviour of \<^verbatim>\<open>math.exp\<close> on IEEE doubles, for closed
  examples: \<^verbatim>\<open>OverflowError\<close> above the logarithm of the largest double, \<^verbatim>\<open>0.0\<close> below
  the logarithm of half the smallest positive double, the exponential in between (the
  rounding of the results in between is left out).
\<close>

definition double_exp :: "real \<Rightarrow> error + real" where
  "double_exp x =
     (if x > 709.782712893384 then Inl OverflowError
      else if x < - 745.1332191019412 then Inr 0
      else Inr (exp x))"

definition optimal_review_interval :: "real \<Rightarrow> real \<Rightarrow> error + real" where
  "optimal_review_interval target stab =
     (if target \<le> 0 \<or> target \<ge> 1 then Inl TargetRetentionOutOfRange
      else Inr (- stab * ln target))"

definition update_stability :: "real \<Rightarrow> real \<Rightarrow> real \<Rightarrow> real" where
  "update_stability current_stability sc retention_at_review =
     (let base_multiplier =
            (if sc \<ge> 0.9 then 2.5
             else if sc \<ge> 0.7 then 1.8
             else if sc \<ge> 0.5 then 1.3
             else if sc \<ge> 0.3 then 0.9
             else 0.6);
          base_multiplier' =
            (if sc \<ge> 0.7 \<and> retention_at_review < 0.5
             then base_multiplier * (1 + (0.5 - retention_at_review))
             else base_multiplier);
          new_stability = current_stability * base_multiplier'
      in max 0.5 (min 30 new_stability))"

definition get_review_priority :: "real \<Rightarrow> real \<Rightarrow> real \<Rightarrow> real" where
  "get_review_priority ret level_importance days_overdue =
     (let retention_urgency = (1 - ret) ^ 2;
          overdue_penalty = min 1 (days_overdue / 7)
      in retention_urgency * level_importance * (1 + overdue_penalty))"

record ReviewSchedule =
  target_retention :: real
  min_interval :: real
  max_interval :: real

text \<open>
  \<^verbatim>\<open>ReviewSchedule.next_review_date\<close> followed by \<^verbatim>\<open>isoformat()\<close>, on the timestamp string:
  \<open>plus_days s d\<close> stands for
  \<^verbatim>\<open>(datetime.fromisoformat(s) + timedelta(days=d)).isoformat()\<close>.
\<close>

definition next_review_date ::
  "(string \<Rightarrow> real \<Rightarrow> error + string) \<Rightarrow> ReviewSchedule \<Rightarrow> string \<Rightarrow> real \<Rightarrow> error + string" where
  "next_review_date plus_days self last_rev stab =
     (case optimal_review_interval (target_retention self) stab of
        Inl e \<Rightarrow> Inl e
      | Inr interval \<Rightarrow>
          plus_days last_rev (max (min_interval self) (min (max_interval self) interval)))"

section \<open>Review scheduler (\<^verbatim>\<open>review/scheduler.py\<close>)\<close>

record ReviewItem =
  item_topic_id :: topic_id
  retention :: real
  priority :: real
  days_since_review :: real
  optimal_review_date :: "string option"
  mastery_level :: string

text \<open>
  The body of the loop of \<^verbatim>\<open>ReviewScheduler.get_due_reviews\<close> for one record: an
  exception, \<open>None\<close> for \<^verbatim>\<open>continue\<close>, or the item appended. \<open>days_since s\<close> stands for
  \<^verbatim>\<open>(datetime.utcnow() - datetime.fromisoformat(s)).total_seconds() / 86400\<close>, or the
  exception that this expression raises.
\<close>

definition due_item ::
  "(real \<Rightarrow> error + real) \<Rightarrow> (string \<Rightarrow> error + real) \<Rightarrow> (string \<Rightarrow> real \<Rightarrow> error + string)
     \<Rightarrow> ReviewSchedule \<Rightarrow> real \<Rightarrow> MasteryRecord \<Rightarrow> error + ReviewItem option" where
  "due_item math_exp days_since plus_days sched threshold r =
     (if level r = UNKNOWN then Inr None
      else
        (case (case last_review r of
                 Some s \<Rightarrow>
                   if s \<noteq> [] then
                     (case days_since s of
                        Inl e \<Rightarrow> Inl e
                      | Inr d \<Rightarrow>
                          (case calculate_retention math_exp d (stability r) of
                             Inl e \<Rightarrow> Inl e
                           | Inr ret \<Rightarrow> Inr (d, ret)))
                   else Inr (0, 0)
               | None \<Rightarrow> Inr (0, 0)) of
           Inl e \<Rightarrow> Inl e
         | Inr (days_elapsed, ret) \<Rightarrow>
             if ret \<ge> threshold then Inr None
             else
               (case optimal_review_interval threshold (stability r) of
                  Inl e \<Rightarrow> Inl e
                | Inr opt \<Rightarrow>
                    (let level_weight = 1 + real_of_int (level_value (level r)) * 0.2;
                         prio = get_review_priority ret level_weight (max 0 (days_elapsed - opt))
                     in case (case last_review r of
                                Some s \<Rightarrow>
                                  if s \<noteq> [] then
                                    (case next_review_date plus_days sched s (stability r) of
                                       Inl e \<Rightarrow> Inl e
                                     | Inr d \<Rightarrow> Inr (Some d))
                                  else Inr None
                              | None \<Rightarrow> Inr None) of
                          Inl e \<Rightarrow> Inl e
                        | Inr optimal_date \<Rightarrow>
                            Inr (Some \<lparr>item_topic_id = topic_id r, retention = ret,
                                       priority = prio, days_since_review = days_elapsed,
                                       optimal_review_date = optimal_date,
                                       mastery_level = level_name_lower (level r)\<rparr>)))))"

text \<open>The loop over \<^verbatim>\<open>self.mastery.records.values()\<close>; the first exception ends it.\<close>

fun collect_due ::
  "(real \<Rightarrow> error + real) \<Rightarrow> (string \<Rightarrow> error + real) \<Rightarrow> (string \<Rightarrow> real \<Rightarrow> error + string)
     \<Rightarrow> ReviewSchedule \<Rightarrow> real \<Rightarrow> MasteryRecord list \<Rightarrow> error + ReviewItem list" where
  "collect_due math_exp days_since plus_days sched threshold [] = Inr []"
| "collect_due math_exp days_since plus_days sched threshold (r # rs) =
     (case due_item math_exp days_since plus_days sched threshold r of
        Inl e \<Rightarrow> Inl e
      | Inr None \<Rightarrow> collect_due math_exp days_since plus_days sched threshold rs
      | Inr (Some it) \<Rightarrow>
          (case collect_due math_exp days_since plus_days sched threshold rs of
             Inl e \<Rightarrow> Inl e
           | Inr its \<Rightarrow> Inr (it # its)))"

text \<open>The slice \<^verbatim>\<open>xs[:n]\<close>: a negative bound counts from the end.\<close>

definition slice_to :: "'a list \<Rightarrow> int \<Rightarrow> 'a list" where
  "slice_to xs n = (if n \<ge> 0 then take (nat n) xs else take (length xs - nat (- n)) xs)"

text \<open>
  \<^verbatim>\<open>ReviewScheduler.get_due_reviews\<close>. The sort is stable and descending in the priority
  (\<^verbatim>\<open>reverse=True\<close> keeps the order of equal keys), which is the stable ascending sort on
  the negated key.
\<close>

definition get_due_reviews ::
  "(real \<Rightarrow> error + real) \<Rightarrow> (string \<Rightarrow> error + real) \<Rightarrow> (string \<Rightarrow> real \<Rightarrow> error + string)
     \<Rightarrow> ReviewSchedule \<Rightarrow> MasteryTracker \<Rightarrow> int \<Rightarrow> real \<Rightarrow> error + ReviewItem list" where
  "get_due_reviews math_exp days_since plus_days sched mastery limit threshold =
     (case collect_due math_exp days_since plus_days sched threshold
             (map snd (records mastery)) of
        Inl e \<Rightarrow> Inl e
      | Inr items \<Rightarrow> Inr (slice_to (sort_key (\<lambda>x. - priority x) items) limit))"

section \<open>Knowledge graph (\<^verbatim>\<open>knowledge/graph.py\<close>)\<close>

record Topic =
  id' :: topic_id
  name :: string
  domain :: string
  description :: string
  difficulty :: real
  estimated_hours :: real
  tags :: "string list"
  concepts :: "string list"
  skills :: "string list"
  created_at :: "string option"
  updated_at :: "string option"

record KnowledgeGraph =
  topics :: "(topic_id \<times> Topic) list"
  prerequisites :: "(topic_id \<times> topic_id list) list"
  dependents :: "(topic_id \<times> topic_id list) list"

text \<open>The constructors \<^verbatim>\<open>Topic(id=i, name=n, domain=d)\<close> and \<^verbatim>\<open>KnowledgeGraph()\<close> with the defaults.\<close>

definition new_topic :: "topic_id \<Rightarrow> string \<Rightarrow> string \<Rightarrow> Topic" where
  "new_topic i n d =
     \<lparr>id' = i, name = n, domain = d, description = [], difficulty = 0.5, estimated_hours = 1,
      tags = [], concepts = [], skills = [], created_at = None, updated_at = None\<rparr>"

definition empty_graph :: KnowledgeGraph where
  "empty_graph = \<lparr>topics = [], prerequisites = [], dependents = []\<rparr>"

text \<open>\<^verbatim>\<open>d.get(k, set())\<close> on an adjacency dictionary: a read that creates no entry.\<close>

definition get_or_empty :: "(topic_id \<times> topic_id list) list \<Rightarrow> topic_id \<Rightarrow> topic_id list" where
  "get_or_empty d k = (case map_of d k of None \<Rightarrow> [] | Some s \<Rightarrow> s)"

text \<open>\<^verbatim>\<open>s.add(x)\<close> and \<^verbatim>\<open>s.update(xs)\<close> on a set.\<close>

definition set_add :: "'a list \<Rightarrow> 'a \<Rightarrow> 'a list" where
  "set_add s x = (if x \<in> set s then s else s @ [x])"

definition set_update :: "'a list \<Rightarrow> 'a list \<Rightarrow> 'a list" where
  "set_update s xs = foldl set_add s xs"

text \<open>\<^verbatim>\<open>d[k].add(x)\<close> on a \<^verbatim>\<open>defaultdict(set)\<close>: the entry is created when it is missing.\<close>

definition defaultdict_add ::
  "(topic_id \<times> topic_id list) list \<Rightarrow> topic_id \<Rightarrow> topic_id \<Rightarrow> (topic_id \<times> topic_id list) list" where
  "defaultdict_add d k x = AList.update k (set_add (get_or_empty d k) x) d"

definition add_topic :: "KnowledgeGraph \<Rightarrow> Topic \<Rightarrow> KnowledgeGraph" where
  "add_topic self t = self\<lparr>topics := AList.update (id' t) t (topics self)\<rparr>"

text \<open>The ids that occur as a value in an adjacency dictionary.\<close>

definition adjacent_ids :: "(topic_id \<times> topic_id list) list \<Rightarrow> topic_id set" where
  "adjacent_ids d = (\<Union>kv \<in> set d. set (snd kv))"

lemma finite_adjacent_ids: "finite (adjacent_ids d)"
  by (simp add: adjacent_ids_def)

lemma get_or_empty_adjacent: "set (get_or_empty d k) \<subseteq> adjacent_ids d"
proof (cases "map_of d k")
  case None
  then show ?thesis by (simp add: get_or_empty_def)
next
  case (Some s)
  then have "(k, s) \<in> set d" by (rule map_of_SomeD)
  then show ?thesis using Some by (force simp: get_or_empty_def adjacent_ids_def)
qed

lemma bfs_visit_decreases:
  assumes "x \<notin> set visited"
  shows "card ((adjacent_ids d \<union> set (queue @ get_or_empty d x)) - set (set_add visited x))
         < card ((adjacent_ids d \<union> set (x # queue)) - set visited)"
proof (rule psubset_card_mono)
  show "finite ((adjacent_ids d \<union> set (x # queue)) - set visited)"
    by (simp add: finite_adjacent_ids)
  have "x \<in> (adjacent_ids d \<union> set (x # queue)) - set visited" using assms by simp
  moreover have "x \<notin> (adjacent_ids d \<union> set (queue @ get_or_empty d x)) - set (set_add visited x)"
    by (simp add: set_add_def)
  moreover have "(adjacent_ids d \<union> set (queue @ get_or_empty d x)) - set (set_add visited x)
          \<subseteq> (adjacent_ids d \<union> set (x # queue)) - set visited"
    using get_or_empty_adjacent [of d x] by (auto simp: set_add_def)
  ultimately show "(adjacent_ids d \<union> set (queue @ get_or_empty d x)) - set (set_add visited x)
          \<subset> (adjacent_ids d \<union> set (x # queue)) - set visited"
    by blast
qed

lemma bfs_skip_decreases:
  "card ((adjacent_ids d \<union> set queue) - set visited)
     \<le> card ((adjacent_ids d \<union> set (x # queue)) - set visited)"
  by (rule card_mono) (auto simp: finite_adjacent_ids)

text \<open>
  The loop of \<^verbatim>\<open>KnowledgeGraph._would_create_cycle\<close>, on \<open>visited\<close> and \<open>queue\<close>, and the
  method.
\<close>

function would_create_cycle_loop ::
  "KnowledgeGraph \<Rightarrow> topic_id \<Rightarrow> topic_id list \<Rightarrow> topic_id list \<Rightarrow> bool" where
  "would_create_cycle_loop self pid visited [] = False"
| "would_create_cycle_loop self pid visited (current # queue) =
     (if current = pid then True
      else if current \<in> set visited then would_create_cycle_loop self pid visited queue
      else would_create_cycle_loop self pid (set_add visited current)
             (queue @ get_or_empty (dependents self) current))"
  by pat_completeness auto
termination
proof (relation "measures
    [\<lambda>(self, pid, visited, queue). card ((adjacent_ids (dependents self) \<union> set queue) - set visited),
     \<lambda>(self, pid, visited, queue). length queue]", goal_cases)
  case 1
  then show ?case by simp
next
  case (2 self pid visited current queue)
  then show ?case
    using bfs_skip_decreases [of "dependents self" queue visited current] by auto
next
  case (3 self pid visited current queue)
  then show ?case
    using bfs_visit_decreases [of current visited "dependents self" queue] by simp
qed

definition would_create_cycle :: "KnowledgeGraph \<Rightarrow> topic_id \<Rightarrow> topic_id \<Rightarrow> bool" where
  "would_create_cycle self tid pid = would_create_cycle_loop self pid [] [tid]"

text \<open>
  \<^verbatim>\<open>KnowledgeGraph.add_prerequisite\<close>: the exception raised, if any, and the graph after the
  call. Each \<^verbatim>\<open>raise\<close> comes before the two writes.
\<close>

definition add_prerequisite ::
  "KnowledgeGraph \<Rightarrow> topic_id \<Rightarrow> topic_id \<Rightarrow> error option \<times> KnowledgeGraph" where
  "add_prerequisite self tid pid =
     (if map_of (topics self) tid = None then (Some (TopicNotFound tid), self)
      else if map_of (topics self) pid = None then (Some (PrerequisiteTopicNotFound pid), self)
      else if would_create_cycle self tid pid then (Some (WouldCreateCycle pid tid), self)
      else (None, self\<lparr>prerequisites := defaultdict_add (prerequisites self) tid pid,
                        dependents := defaultdict_add (dependents self) pid tid\<rparr>))"

text \<open>The loop of \<^verbatim>\<open>KnowledgeGraph.get_all_prerequisites\<close> and the method.\<close>

function all_prereqs_loop ::
  "KnowledgeGraph \<Rightarrow> topic_id list \<Rightarrow> topic_id list \<Rightarrow> topic_id list" where
  "all_prereqs_loop self all_prereqs [] = all_prereqs"
| "all_prereqs_loop self all_prereqs (pid # queue) =
     (if pid \<in> set all_prereqs then all_prereqs_loop self all_prereqs queue
      else all_prereqs_loop self (set_add all_prereqs pid)
             (queue @ get_or_empty (prerequisites self) pid))"
  by pat_completeness auto
termination
proof (relation "measures
    [\<lambda>(self, visited, queue). card ((adjacent_ids (prerequisites self) \<union> set queue) - set visited),
     \<lambda>(self, visited, queue). length queue]", goal_cases)
  case 1
  then show ?case by simp
next
  case (2 self all_prereqs pid queue)
  then show ?case
    using bfs_skip_decreases [of "prerequisites self" queue all_prereqs pid] by auto
next
  case (3 self all_prereqs pid queue)
  then show ?case
    using bfs_visit_decreases [of pid all_prereqs "prerequisites self" queue] by simp
qed

definition all_prerequisite_ids :: "KnowledgeGraph \<Rightarrow> topic_id \<Rightarrow> topic_id list" where
  "all_prerequisite_ids self tid = all_prereqs_loop self [] (get_or_empty (prerequisites self) tid)"

definition get_all_prerequisites :: "KnowledgeGraph \<Rightarrow> topic_id \<Rightarrow> Topic list" where
  "get_all_prerequisites self tid =
     List.map_filter (map_of (topics self)) (all_prerequisite_ids self tid)"

text \<open>
  \<^verbatim>\<open>KnowledgeGraph._topological_sort\<close>. First the in-degree dictionary: every id of the
  subset starts at 0, and \<^verbatim>\<open>in_degree[tid] += 1\<close> runs once for each prerequisite of
  \<open>tid\<close> that is in the subset.
\<close>

definition count_prerequisites ::
  "KnowledgeGraph \<Rightarrow> topic_id list \<Rightarrow> (topic_id \<times> int) list \<Rightarrow> topic_id \<Rightarrow> (topic_id \<times> int) list" where
  "count_prerequisites self topic_ids in_degree tid =
     foldl (\<lambda>d pid. if pid \<in> set topic_ids then AList.map_entry tid (\<lambda>n. n + 1) d else d)
       in_degree (get_or_empty (prerequisites self) tid)"

definition initial_in_degree :: "KnowledgeGraph \<Rightarrow> topic_id list \<Rightarrow> (topic_id \<times> int) list" where
  "initial_in_degree self topic_ids =
     foldl (count_prerequisites self topic_ids)
       (foldl (\<lambda>d tid. AList.update tid 0 d) [] topic_ids) topic_ids"

text \<open>
  The body of the inner loop over the dependents of the emitted topic: the in-degree of a
  dependent in the subset drops by one, and the dependent is queued when it reaches 0.
\<close>

fun release_dependent ::
  "(topic_id \<times> int) list \<times> topic_id list \<Rightarrow> topic_id \<Rightarrow> (topic_id \<times> int) list \<times> topic_id list" where
  "release_dependent (in_degree, queue) dependent_id =
     (if dependent_id \<in> fst ` set in_degree then
        (let in_degree' = AList.map_entry dependent_id (\<lambda>n. n - 1) in_degree
         in if map_of in_degree' dependent_id = Some 0
            then (in_degree', queue @ [dependent_id])
            else (in_degree', queue))
      else (in_degree, queue))"

text \<open>The number of entries of the in-degree dictionary with a positive value.\<close>

definition positive_entries :: "(topic_id \<times> int) list \<Rightarrow> nat" where
  "positive_entries d = length (filter (\<lambda>kv. 0 < snd kv) d)"

lemma map_entry_positive:
  "k \<in> fst ` set d \<Longrightarrow>
   positive_entries (AList.map_entry k (\<lambda>n. n - 1) d) =
     (if map_of d k = Some 1 then positive_entries d - 1 else positive_entries d)
   \<and> (map_of d k = Some 1 \<longrightarrow> 0 < positive_entries d)"
proof (induction d)
  case Nil
  then show ?case by simp
next
  case (Cons a d)
  obtain k' v where a: "a = (k', v)" by (cases a)
  show ?case
  proof (cases "k' = k")
    case True
    then show ?thesis by (auto simp: a positive_entries_def)
  next
    case False
    with Cons have "k \<in> fst ` set d" by (auto simp: a)
    from Cons.IH [OF this] False show ?thesis by (auto simp: a positive_entries_def)
  qed
qed

lemma release_dependent_measure:
  "release_dependent (d, q) x = (d', q') \<Longrightarrow>
   2 * positive_entries d' + length q' \<le> 2 * positive_entries d + length q"
proof (cases "x \<in> fst ` set d")
  case False
  assume "release_dependent (d, q) x = (d', q')"
  with False show ?thesis by auto
next
  case True
  assume r: "release_dependent (d, q) x = (d', q')"
  have m: "map_of (AList.map_entry x (\<lambda>n. n - 1) d) x = Some 0 \<longleftrightarrow> map_of d x = Some 1"
    by (auto simp: map_of_map_entry split: option.splits)
  from map_entry_positive [OF True] r True m show ?thesis
    by (auto simp: Let_def split: if_splits)
qed

lemma release_dependents_measure:
  "foldl release_dependent (d, q) xs = (d', q') \<Longrightarrow>
   2 * positive_entries d' + length q' \<le> 2 * positive_entries d + length q"
proof (induction xs arbitrary: d q)
  case Nil
  then show ?case by simp
next
  case (Cons x xs)
  obtain d1 q1 where s: "release_dependent (d, q) x = (d1, q1)"
    by (cases "release_dependent (d, q) x")
  from Cons.prems have "foldl release_dependent (d1, q1) xs = (d', q')"
    by (simp only: foldl_Cons s)
  from Cons.IH [OF this] release_dependent_measure [OF s] show ?case by simp
qed

text \<open>
  The \<^verbatim>\<open>while queue\<close> loop: \<^verbatim>\<open>self.topics[current]\<close> raises \<^verbatim>\<open>KeyError\<close> for an id that is
  not registered.
\<close>

function topological_loop ::
  "KnowledgeGraph \<Rightarrow> (topic_id \<times> int) list \<Rightarrow> topic_id list \<Rightarrow> Topic list \<Rightarrow> error + Topic list" where
  "topological_loop self in_degree [] result = Inr result"
| "topological_loop self in_degree (current # queue) result =
     (case map_of (topics self) current of
        None \<Rightarrow> Inl (KeyError current)
      | Some t \<Rightarrow>
          (case foldl release_dependent (in_degree, queue)
                  (get_or_empty (dependents self) current) of
             (in_degree', queue') \<Rightarrow> topological_loop self in_degree' queue' (result @ [t])))"
  by pat_completeness auto
termination
proof (relation "measure (\<lambda>(self, in_degree, queue, result).
    2 * positive_entries in_degree + length queue)", goal_cases)
  case 1
  then show ?case by simp
next
  case (2 self in_degree current queue result t in_degree' queue')
  from release_dependents_measure [OF 2(2) [symmetric]] show ?case by simp
qed

definition topological_sort :: "KnowledgeGraph \<Rightarrow> topic_id list \<Rightarrow> error + Topic list" where
  "topological_sort self topic_ids =
     (let in_degree = initial_in_degree self topic_ids;
          queue = map fst (filter (\<lambda>kv. snd kv = 0) in_degree)
      in topological_loop self in_degree queue [])"

text \<open>
  \<^verbatim>\<open>KnowledgeGraph.get_learning_path\<close>; \<open>completed_ids\<close> is the optional set of the
  signature.
\<close>

definition get_learning_path ::
  "KnowledgeGraph \<Rightarrow> topic_id \<Rightarrow> topic_id list option \<Rightarrow> error + Topic list" where
  "get_learning_path self target_id completed_ids =
     (if map_of (topics self) target_id = None then Inl (TopicNotFound target_id)
      else
        (let completed = (case completed_ids of None \<Rightarrow> [] | Some c \<Rightarrow> c);
             needed = get_all_prerequisites self target_id;
             needed_ids = set_add (remdups (map id' needed)) target_id;
             to_learn = filter (\<lambda>x. x \<notin> set completed) needed_ids
         in topological_sort self to_learn))"

text \<open>
  \<^verbatim>\<open>KnowledgeGraph.get_fire_ancestors\<close>: the loop over \<^verbatim>\<open>range(max_depth)\<close>, with the
  number of rounds left, and the method.
\<close>

fun fire_loop ::
  "KnowledgeGraph \<Rightarrow> nat \<Rightarrow> (topic_id \<times> real) list \<Rightarrow> real \<Rightarrow> topic_id list \<Rightarrow> (topic_id \<times> real) list" where
  "fire_loop self 0 weights current_weight current_level = weights"
| "fire_loop self (Suc n) weights current_weight current_level =
     (if current_level = [] then weights
      else
        (let weights' =
               foldl (\<lambda>w pid. if pid \<notin> fst ` set w then AList.update pid current_weight w else w)
                 weights current_level;
             next_level =
               foldl (\<lambda>s pid. set_update s (get_or_empty (prerequisites self) pid))
                 [] current_level
         in fire_loop self n weights' (current_weight * 0.5) next_level))"

definition get_fire_ancestors :: "KnowledgeGraph \<Rightarrow> topic_id \<Rightarrow> int \<Rightarrow> (topic_id \<times> real) list" where
  "get_fire_ancestors self tid max_depth =
     fire_loop self (nat max_depth) [] 0.5 (get_or_empty (prerequisites self) tid)"

section \<open>Relations and well-formedness of a graph\<close>

text \<open>
  The direct-prerequisite relation and the relation of the dependents dictionary. A graph
  is well formed when every topic is stored under its own id, both ends of every
  prerequisite edge are registered, the dependents mirror the prerequisites, and the
  adjacency sets hold no element twice (they are sets).
\<close>

definition prereq_rel :: "KnowledgeGraph \<Rightarrow> (topic_id \<times> topic_id) set" where
  "prereq_rel g = {(t, p). p \<in> set (get_or_empty (prerequisites g) t)}"

definition dependent_rel :: "KnowledgeGraph \<Rightarrow> (topic_id \<times> topic_id) set" where
  "dependent_rel g = {(p, t). t \<in> set (get_or_empty (dependents g) p)}"

definition well_formed :: "KnowledgeGraph \<Rightarrow> bool" where
  "well_formed g \<longleftrightarrow>
     (\<forall>kt \<in> set (topics g). id' (snd kt) = fst kt)
     \<and> (\<forall>tp \<in> prereq_rel g. map_of (topics g) (fst tp) \<noteq> None \<and> map_of (topics g) (snd tp) \<noteq> None)
     \<and> dependent_rel g = (prereq_rel g)\<inverse>
     \<and> (\<forall>k. distinct (get_or_empty (prerequisites g) k))
     \<and> (\<forall>k. distinct (get_or_empty (dependents g) k))"


text \<open>
  The number of prerequisites of \<open>k\<close> that are in the subset \<open>S\<close> and not yet emitted, and the
  invariant of the loop of the topological sort on the in-degrees \<open>d\<close>, the queue \<open>q\<close> and
  the ids \<open>E\<close> emitted so far.
\<close>

definition pending :: "KnowledgeGraph \<Rightarrow> topic_id set \<Rightarrow> topic_id set \<Rightarrow> topic_id \<Rightarrow> int" where
  "pending g S E k =
     int (length (filter (\<lambda>p. p \<in> S \<and> p \<notin> E) (get_or_empty (prerequisites g) k)))"

definition emitted_after_prerequisites :: "KnowledgeGraph \<Rightarrow> topic_id set \<Rightarrow> topic_id list \<Rightarrow> bool" where
  "emitted_after_prerequisites g S E \<longleftrightarrow>
     (\<forall>xs x ys. E = xs @ x # ys \<longrightarrow>
        (\<forall>p \<in> set (get_or_empty (prerequisites g) x). p \<in> S \<longrightarrow> p \<in> set xs))"

definition sort_invariant ::
  "KnowledgeGraph \<Rightarrow> topic_id set \<Rightarrow> (topic_id \<times> int) list \<Rightarrow> topic_id list \<Rightarrow> topic_id list \<Rightarrow> bool" where
  "sort_invariant g S d q E \<longleftrightarrow>
     fst ` set d = S
     \<and> (\<forall>k \<in> S. map_of d k = Some (pending g S (set E) k))
     \<and> distinct (E @ q) \<and> set E \<union> set q \<subseteq> S
     \<and> (\<forall>k \<in> set q. pending g S (set E) k = 0)
     \<and> emitted_after_prerequisites g S E"

text \<open>The bound on the stability that the record's own updates keep.\<close>

definition stable_ok :: "MasteryTracker \<Rightarrow> bool" where
  "stable_ok tr = (\<forall>r \<in> snd ` set (records tr). 0.5 \<le> stability r \<and> stability r \<le> 10)"

section \<open>Level transitions\<close>

lemma from_score_cases:
  "from_score s L = Inr L
   \<or> (\<exists>L'. from_score s L = Inr L' \<and> level_value L' = level_value L + 1)
   \<or> (\<exists>L'. from_score s L = Inr L' \<and> level_value L' = level_value L - 1)"
  by (cases L) (simp_all add: from_score_def MasteryLevel_of_def Let_def)

text \<open>
  C3. For every current level and every score, \<open>from_score\<close> returns a level (it never
  raises) whose rank differs from the current rank by at most one.
\<close>

theorem from_score_one_rank:
  "\<exists>L'. from_score s L = Inr L' \<and> \<bar>level_value L' - level_value L\<bar> \<le> 1"
  using from_score_cases [of s L] by auto

text \<open>
  C2, as the code behaves. A practice with score 0.5 on a fresh record (level Unknown)
  moves the level one rank, to Introduced, although the target of the score is
  Developing; the stability stays at 1.
\<close>

theorem record_practice_fresh_half:
  "fst (record_practice now (new_record t) 0.5 ptype spent) = Inr INTRODUCED
   \<and> level (snd (record_practice now (new_record t) 0.5 ptype spent)) = INTRODUCED
   \<and> stability (snd (record_practice now (new_record t) 0.5 ptype spent))
       = stability (new_record t)"
  by (simp add: record_practice_def new_record_def from_score_def MasteryLevel_of_def Let_def)

text \<open>C2, as the specification states it, fails: the level after the call is not Developing.\<close>

theorem record_practice_fresh_half_not_developing:
  "level (snd (record_practice ''2024-01-01T00:00:00'' (new_record ''algebra'') 0.5 '''' 0))
     \<noteq> DEVELOPING"
  by (simp add: record_practice_def new_record_def from_score_def MasteryLevel_of_def Let_def)

section \<open>Retention\<close>

lemma double_exp_nonpositive:
  "x \<le> 0 \<Longrightarrow> \<exists>y. double_exp x = Inr y \<and> 0 \<le> y \<and> y \<le> 1"
  by (simp add: double_exp_def)

lemma double_exp_mono:
  "x \<le> x' \<Longrightarrow> double_exp x = Inr y \<Longrightarrow> double_exp x' = Inr y' \<Longrightarrow> y \<le> y'"
  by (auto simp: double_exp_def split: if_splits)

lemma double_exp_zero: "double_exp 0 = Inr 1"
  by (simp add: double_exp_def)

lemma calculate_retention_range:
  "calculate_retention math_exp t S = Inr r \<Longrightarrow> 0 \<le> r \<and> r \<le> 1"
  by (auto simp: calculate_retention_def split: if_splits sum.splits)

lemma calculate_retention_nonincreasing:
  assumes ret: "\<forall>x \<le> 0. \<exists>y. math_exp x = Inr y"
    and mono: "\<forall>x x' y y'. x \<le> x' \<and> math_exp x = Inr y \<and> math_exp x' = Inr y' \<longrightarrow> y \<le> y'"
    and "0 < S" and "0 \<le> t1" and "t1 < t2"
  shows "\<exists>r1 r2. calculate_retention math_exp t1 S = Inr r1
           \<and> calculate_retention math_exp t2 S = Inr r2 \<and> r2 \<le> r1"
proof -
  have a1: "- t1 / S \<le> 0" and a2: "- t2 / S \<le> 0"
    using assms(3-5) by (simp_all add: divide_le_0_iff)
  have le: "- t2 / S \<le> - t1 / S" using assms(3,5) by (simp add: divide_right_mono)
  from ret a1 obtain y1 where y1: "math_exp (- t1 / S) = Inr y1" by blast
  from ret a2 obtain y2 where y2: "math_exp (- t2 / S) = Inr y2" by blast
  from mono le y1 y2 have "y2 \<le> y1" by blast
  then have "max 0 (min 1 y2) \<le> max 0 (min 1 y1)" by auto
  then show ?thesis using assms(3) y1 y2 by (simp add: calculate_retention_def)
qed

text \<open>
  C7, as the code behaves. Whatever \<^verbatim>\<open>math.exp\<close> does, the retention is 0 for a stability
  that is not positive and otherwise the result of \<^verbatim>\<open>math.exp\<close> at \<open>- t / S\<close> clamped to
  the unit interval, or the exception that \<^verbatim>\<open>math.exp\<close> raises. When \<^verbatim>\<open>math.exp\<close> returns
  on every argument that is not positive and is monotone, the retention for a positive
  stability does not increase with the elapsed time from 0 on; when \<^verbatim>\<open>math.exp\<close> gives 1
  at 0, the retention at elapsed time 0 is 1.
\<close>

theorem calculate_retention_decay:
  "(S \<le> 0 \<longrightarrow> calculate_retention math_exp t S = Inr 0)
   \<and> (0 < S \<longrightarrow>
        (\<forall>y. math_exp (- t / S) = Inr y \<longrightarrow>
           calculate_retention math_exp t S = Inr (max 0 (min 1 y)))
        \<and> (\<forall>e. math_exp (- t / S) = Inl e \<longrightarrow> calculate_retention math_exp t S = Inl e))
   \<and> (\<forall>r. calculate_retention math_exp t S = Inr r \<longrightarrow> 0 \<le> r \<and> r \<le> 1)
   \<and> ((\<forall>x \<le> 0. \<exists>y. math_exp x = Inr y)
        \<and> (\<forall>x x' y y'. x \<le> x' \<and> math_exp x = Inr y \<and> math_exp x' = Inr y' \<longrightarrow> y \<le> y')
        \<and> 0 < S \<and> 0 \<le> t1 \<and> t1 < t2 \<longrightarrow>
        (\<exists>r1 r2. calculate_retention math_exp t1 S = Inr r1
           \<and> calculate_retention math_exp t2 S = Inr r2 \<and> r2 \<le> r1))
   \<and> (math_exp 0 = Inr 1 \<and> 0 < S \<longrightarrow> calculate_retention math_exp 0 S = Inr 1)"
proof (intro conjI impI allI)
  assume "S \<le> 0"
  then show "calculate_retention math_exp t S = Inr 0" by (simp add: calculate_retention_def)
next
  fix y assume "0 < S" and "math_exp (- t / S) = Inr y"
  then show "calculate_retention math_exp t S = Inr (max 0 (min 1 y))"
    by (simp add: calculate_retention_def)
next
  fix e assume "0 < S" and "math_exp (- t / S) = Inl e"
  then show "calculate_retention math_exp t S = Inl e"
    by (simp add: calculate_retention_def)
next
  fix r assume "calculate_retention math_exp t S = Inr r"
  from calculate_retention_range [OF this] show "0 \<le> r" and "r \<le> 1" by simp_all
next
  assume h: "(\<forall>x \<le> 0. \<exists>y. math_exp x = Inr y)
        \<and> (\<forall>x x' y y'. x \<le> x' \<and> math_exp x = Inr y \<and> math_exp x' = Inr y' \<longrightarrow> y \<le> y')
        \<and> 0 < S \<and> 0 \<le> t1 \<and> t1 < t2"
  show "\<exists>r1 r2. calculate_retention math_exp t1 S = Inr r1
           \<and> calculate_retention math_exp t2 S = Inr r2 \<and> r2 \<le> r1"
    by (rule calculate_retention_nonincreasing) (use h in blast)+
next
  assume "math_exp 0 = Inr 1 \<and> 0 < S"
  then show "calculate_retention math_exp 0 S = Inr 1"
    by (simp add: calculate_retention_def)
qed

theorem calculate_retention_decay_witness:
  "(\<exists>r1 r2. calculate_retention double_exp 1 2 = Inr r1
      \<and> calculate_retention double_exp 3 2 = Inr r2 \<and> r2 \<le> r1)
   \<and> calculate_retention double_exp 0 2 = Inr 1
   \<and> calculate_retention double_exp 1 (- 1) = Inr 0
   \<and> calculate_retention double_exp (- 1000) 1 = Inl OverflowError"
proof -
  have h: "(\<forall>x \<le> 0. \<exists>y. double_exp x = Inr y)
        \<and> (\<forall>x x' y y'. x \<le> x' \<and> double_exp x = Inr y \<and> double_exp x' = Inr y' \<longrightarrow> y \<le> y')
        \<and> (0::real) < 2 \<and> (0::real) \<le> 1 \<and> (1::real) < 3"
    using double_exp_nonpositive double_exp_mono by (simp, blast)
  have e: "double_exp (- (- 1000) / 1) = Inl OverflowError" by (simp add: double_exp_def)
  from calculate_retention_decay [of 2 double_exp 1 1 3] h double_exp_zero
    calculate_retention_decay [of "- 1" double_exp 1 1 3]
    calculate_retention_decay [of 1 double_exp "- 1000" 1 3] e
  show ?thesis by simp
qed

text \<open>
  C7, as the specification states it, fails: the retention is not strictly decreasing.
  \<^verbatim>\<open>math.exp\<close> underflows to \<^verbatim>\<open>0.0\<close> at \<open>-1000\<close> and at \<open>-2000\<close>, so the retention after 1000 and
  after 2000 days at stability 1 is the same.
\<close>

theorem calculate_retention_underflow:
  "calculate_retention double_exp 1000 1 = Inr 0
   \<and> calculate_retention double_exp 2000 1 = Inr 0
   \<and> \<not> (case (calculate_retention double_exp 2000 1, calculate_retention double_exp 1000 1) of
          (Inr r2, Inr r1) \<Rightarrow> r2 < r1 | _ \<Rightarrow> False)"
  by (simp add: calculate_retention_def double_exp_def)

section \<open>FIRe credit\<close>

lemma map_of_get_record:
  "map_of (records (snd (get_record tr t))) k =
     (if k = t \<and> map_of (records tr) t = None then Some (new_record t) else map_of (records tr) k)"
  by (auto simp: get_record_def update_conv' split: option.splits)

lemma fst_get_record:
  "fst (get_record tr t) = (case map_of (records tr) t of None \<Rightarrow> new_record t | Some r \<Rightarrow> r)"
  by (simp add: get_record_def split: option.splits)

lemma truthy_new_record [simp]: "\<not> truthy (last_review (new_record t))"
  by (simp add: truthy_def new_record_def)

lemma map_of_fire_credit_step:
  "map_of (records (fire_credit_step now b tr (k', w))) k =
     (if k = k' \<and> b * w \<ge> 0.3 then
        (case map_of (records tr) k of
           None \<Rightarrow> Some (new_record k)
         | Some r \<Rightarrow>
             if truthy (last_review r)
             then Some (r\<lparr>stability := min 10 (stability r * (1 + 0.1 * w)),
                          last_review := Some (now k)\<rparr>)
             else Some r)
      else map_of (records tr) k)"
  by (auto simp: fire_credit_step_def get_record_def update_conv' Let_def
           split: option.splits prod.splits)

lemma map_of_apply_fire_credit:
  "distinct (map fst ws) \<Longrightarrow>
   map_of (records (apply_fire_credit now tr t ws b)) k =
     (case map_of ws k of
        None \<Rightarrow> map_of (records tr) k
      | Some w \<Rightarrow>
          if b * w \<ge> 0.3 then
            (case map_of (records tr) k of
               None \<Rightarrow> Some (new_record k)
             | Some r \<Rightarrow>
                 if truthy (last_review r)
                 then Some (r\<lparr>stability := min 10 (stability r * (1 + 0.1 * w)),
                              last_review := Some (now k)\<rparr>)
                 else Some r)
          else map_of (records tr) k)"
  unfolding apply_fire_credit_def
proof (induction ws arbitrary: tr)
  case Nil
  then show ?case by simp
next
  case (Cons kv ws)
  obtain k' w where kv: "kv = (k', w)" by (cases kv)
  from Cons.prems have d: "distinct (map fst ws)" and nk: "k' \<notin> fst ` set ws"
    by (auto simp: kv)
  from nk have none: "map_of ws k' = None" by (simp add: map_of_eq_None_iff)
  show ?case
  proof (cases "k = k'")
    case True
    then show ?thesis
      using Cons.IH [OF d, of "fire_credit_step now b tr (k', w)"] none
      by (auto simp: kv map_of_fire_credit_step split: option.splits)
  next
    case False
    then have "map_of (records (fire_credit_step now b tr (k', w))) k = map_of (records tr) k"
      by (simp add: map_of_fire_credit_step)
    then show ?thesis
      using Cons.IH [OF d, of "fire_credit_step now b tr (k', w)"] False
      by (auto simp: kv split: option.splits)
  qed
qed

text \<open>
  C8. After \<open>apply_fire_credit\<close> with a dictionary of weights (its keys are distinct), a
  record that existed before is still there with the same level, history, practice count
  and average score. Its stability is multiplied by \<open>1 + 0.1 * weight\<close> (capped at 10) and
  its last review set to the clock reading exactly when its id has a weight with
  \<open>base_score * weight \<ge> 0.3\<close> and it already had a last review; otherwise the record is
  unchanged. An id without a record gets at most a fresh record.
\<close>

theorem apply_fire_credit_effect:
  assumes "distinct (map fst ws)"
  shows "(map_of (records tr) k = None \<longrightarrow>
            map_of (records (apply_fire_credit now tr t ws b)) k = None
          \<or> map_of (records (apply_fire_credit now tr t ws b)) k = Some (new_record k))
       \<and> (\<forall>r. map_of (records tr) k = Some r \<longrightarrow>
            (\<exists>r'. map_of (records (apply_fire_credit now tr t ws b)) k = Some r'
               \<and> level r' = level r \<and> history r' = history r
               \<and> practice_count r' = practice_count r \<and> average_score r' = average_score r
               \<and> (case map_of ws k of
                    Some w \<Rightarrow>
                      if b * w \<ge> 0.3 \<and> truthy (last_review r)
                      then r' = r\<lparr>stability := min 10 (stability r * (1 + 0.1 * w)),
                                   last_review := Some (now k)\<rparr>
                      else r' = r
                  | None \<Rightarrow> r' = r)))"
  using map_of_apply_fire_credit [OF assms, of now tr t b k]
  by (auto split: option.splits)

theorem apply_fire_credit_effect_witness:
  "distinct (map fst [(''limits'', 0.5::real)]) \<and>
   map_of (records (apply_fire_credit (\<lambda>k. ''2024-02-01T00:00:00'')
      \<lparr>records = [(''limits'', (new_record ''limits'')\<lparr>level := DEVELOPING, stability := 2,
                                   last_review := Some ''2024-01-01T00:00:00''\<rparr>)]\<rparr>
      ''derivatives'' [(''limits'', 0.5)] 1)) ''limits''
   = Some ((new_record ''limits'')\<lparr>level := DEVELOPING, stability := 2.1,
                                   last_review := Some ''2024-02-01T00:00:00''\<rparr>)"
  using apply_fire_credit_effect [of "[(''limits'', 0.5)]"
      "\<lparr>records = [(''limits'', (new_record ''limits'')\<lparr>level := DEVELOPING, stability := 2,
                                   last_review := Some ''2024-01-01T00:00:00''\<rparr>)]\<rparr>"
      "''limits''" "\<lambda>k. ''2024-02-01T00:00:00''" "''derivatives''" 1]
  by (simp add: truthy_def new_record_def)

section \<open>Stability bounds\<close>

lemma set_alist_update:
  "set (AList.update k v al) \<subseteq> insert (k, v) (set al)"
  by (induction al) auto

lemma stable_ok_update:
  "stable_ok tr \<Longrightarrow> 0.5 \<le> stability r \<Longrightarrow> stability r \<le> 10 \<Longrightarrow>
   stable_ok (tr\<lparr>records := AList.update k r (records tr)\<rparr>)"
  using set_alist_update [of k r "records tr"] by (fastforce simp: stable_ok_def)

lemma stable_ok_lookup:
  "stable_ok tr \<Longrightarrow> map_of (records tr) k = Some r \<Longrightarrow> 0.5 \<le> stability r \<and> stability r \<le> 10"
  by (force simp: stable_ok_def dest: map_of_SomeD)

lemma stable_ok_get_record:
  "stable_ok tr \<Longrightarrow> get_record tr t = (r, tr') \<Longrightarrow>
   stable_ok tr' \<and> 0.5 \<le> stability r \<and> stability r \<le> 10"
proof (cases "map_of (records tr) t")
  case None
  assume ok: "stable_ok tr" and g: "get_record tr t = (r, tr')"
  from g None have r: "r = new_record t"
    and tr': "tr' = tr\<lparr>records := AList.update t (new_record t) (records tr)\<rparr>"
    by (auto simp: get_record_def)
  have s: "stability (new_record t) = 1" by (simp add: new_record_def)
  show ?thesis using stable_ok_update [OF ok, of "new_record t" t] by (simp add: r tr' s)
next
  case (Some a)
  assume ok: "stable_ok tr" and g: "get_record tr t = (r, tr')"
  from g Some have "r = a" "tr' = tr" by (auto simp: get_record_def)
  then show ?thesis using ok stable_ok_lookup [OF ok Some] by simp
qed

lemma record_practice_stability:
  "0.5 \<le> stability r \<Longrightarrow> stability r \<le> 10 \<Longrightarrow>
   0.5 \<le> stability (snd (record_practice now r sc ptype spent))
   \<and> stability (snd (record_practice now r sc ptype spent)) \<le> 10"
  by (auto simp: record_practice_def Let_def split: sum.splits)

lemma stable_ok_tracker_record_practice:
  assumes "stable_ok tr"
  shows "stable_ok (snd (tracker_record_practice now tr t sc ptype spent))"
proof -
  obtain r tr1 where g: "get_record tr t = (r, tr1)" by (cases "get_record tr t")
  obtain res r' where p: "record_practice now r sc ptype spent = (res, r')"
    by (cases "record_practice now r sc ptype spent")
  from stable_ok_get_record [OF assms g]
  have ok1: "stable_ok tr1" and b: "0.5 \<le> stability r" "stability r \<le> 10" by auto
  from record_practice_stability [OF b, of now sc ptype spent] p
  have "0.5 \<le> stability r'" "stability r' \<le> 10" by auto
  from stable_ok_update [OF ok1 this]
  show ?thesis by (simp add: tracker_record_practice_def g p)
qed

lemma stable_ok_fire_credit_step:
  assumes "stable_ok tr" and "0 \<le> b \<or> 0 \<le> w"
  shows "stable_ok (fire_credit_step now b tr (k, w))"
proof (cases "b * w \<ge> 0.3")
  case False
  then show ?thesis using assms by (simp add: fire_credit_step_def)
next
  case True
  have w: "0 \<le> w"
  proof (rule ccontr)
    assume "\<not> 0 \<le> w"
    then have "w < 0" "0 \<le> b" using assms(2) by auto
    then have "b * w \<le> 0" by (simp add: mult_nonneg_nonpos)
    with True show False by simp
  qed
  obtain r tr1 where g: "get_record tr k = (r, tr1)" by (cases "get_record tr k")
  from stable_ok_get_record [OF assms(1) g]
  have ok1: "stable_ok tr1" and b: "0.5 \<le> stability r" "stability r \<le> 10" by auto
  have "stability r * 1 \<le> stability r * (1 + 0.1 * w)"
    using w b by (intro mult_left_mono) auto
  then have "0.5 \<le> stability r * (1 + 0.1 * w)" using b by linarith
  then have "0.5 \<le> min 10 (stability r * (1 + 0.1 * w))" by (simp add: min_def)
  then have "stable_ok (tr1\<lparr>records := AList.update k
      (r\<lparr>stability := min 10 (stability r * (1 + 0.1 * w)), last_review := Some (now k)\<rparr>)
      (records tr1)\<rparr>)"
    by (intro stable_ok_update [OF ok1]) simp_all
  then show ?thesis using True ok1 by (simp add: fire_credit_step_def g Let_def)
qed

lemma stable_ok_apply_fire_credit:
  "stable_ok tr \<Longrightarrow> 0 \<le> b \<or> (\<forall>w \<in> snd ` set ws. 0 \<le> w) \<Longrightarrow>
   stable_ok (apply_fire_credit now tr t ws b)"
  unfolding apply_fire_credit_def
proof (induction ws arbitrary: tr)
  case Nil
  then show ?case by simp
next
  case (Cons kv ws)
  obtain k w where kv: "kv = (k, w)" by (cases kv)
  from Cons.prems(2) have "0 \<le> b \<or> 0 \<le> w" by (auto simp: kv)
  from stable_ok_fire_credit_step [OF Cons.prems(1) this]
  have "stable_ok (fire_credit_step now b tr (k, w))" .
  moreover from Cons.prems(2) have "0 \<le> b \<or> (\<forall>w \<in> snd ` set ws. 0 \<le> w)" by auto
  ultimately show ?case using Cons.IH by (simp add: kv)
qed

lemma stable_ok_exec_calls:
  "stable_ok tr \<Longrightarrow>
   \<forall>now t ws b. ApplyFireCredit now t ws b \<in> set cs \<longrightarrow> 0 \<le> b \<or> (\<forall>w \<in> snd ` set ws. 0 \<le> w) \<Longrightarrow>
   stable_ok (exec_calls tr cs)"
  unfolding exec_calls_def
proof (induction cs arbitrary: tr)
  case Nil
  then show ?case by simp
next
  case (Cons c cs)
  have "stable_ok (exec_call tr c)"
  proof (cases c)
    case (RecordPractice now t sc ptype spent)
    then show ?thesis using stable_ok_tracker_record_practice [OF Cons.prems(1)] by simp
  next
    case (ApplyFireCredit now t ws b)
    with Cons.prems(2) have "0 \<le> b \<or> (\<forall>w \<in> snd ` set ws. 0 \<le> w)" by auto
    from stable_ok_apply_fire_credit [OF Cons.prems(1) this]
    show ?thesis by (simp add: ApplyFireCredit)
  qed
  moreover from Cons.prems(2)
  have "\<forall>now t ws b. ApplyFireCredit now t ws b \<in> set cs \<longrightarrow> 0 \<le> b \<or> (\<forall>w \<in> snd ` set ws. 0 \<le> w)"
    by auto
  ultimately show ?case using Cons.IH by simp
qed

lemma update_stability_bounds:
  "0.5 \<le> update_stability s sc ret \<and> update_stability s sc ret \<le> 30"
  by (simp add: update_stability_def Let_def)

text \<open>
  C9, as the code behaves. Starting from a tracker whose records have a stability in
  \<open>[0.5, 10]\<close> (a fresh record has stability 1; the empty tracker has no record), after
  any sequence of \<open>record_practice\<close> and \<open>apply_fire_credit\<close> calls in which every
  FIRe credit has a non-negative base score or non-negative weights, every record has a
  stability in \<open>[0.5, 10]\<close>. The helper \<open>update_stability\<close> of the decay model stays in
  \<open>[0.5, 30]\<close> and does exceed 10.
\<close>

theorem record_stability_bounds:
  assumes "\<forall>r \<in> snd ` set (records tr). 0.5 \<le> stability r \<and> stability r \<le> 10"
    and "\<forall>now t ws b. ApplyFireCredit now t ws b \<in> set cs \<longrightarrow>
           0 \<le> b \<or> (\<forall>w \<in> snd ` set ws. 0 \<le> w)"
    and "map_of (records (exec_calls tr cs)) k = Some r"
  shows "0.5 \<le> stability r \<and> stability r \<le> 10
         \<and> 0.5 \<le> update_stability s sc ret \<and> update_stability s sc ret \<le> 30
         \<and> update_stability 10 1 1 = 25"
proof -
  have "stable_ok tr" using assms(1) by (simp add: stable_ok_def)
  from stable_ok_exec_calls [OF this assms(2)] have "stable_ok (exec_calls tr cs)" .
  from stable_ok_lookup [OF this assms(3)] update_stability_bounds [of s sc ret]
  show ?thesis by (simp add: update_stability_def)
qed

theorem record_stability_bounds_witness:
  "map_of (records (exec_calls \<lparr>records = []\<rparr>
      [RecordPractice ''2024-01-01T00:00:00'' ''limits'' 0.9 '''' 60,
       ApplyFireCredit (\<lambda>k. ''2024-01-02T00:00:00'') ''derivatives'' [(''limits'', 0.5)] 1]))
     ''limits''
   = Some \<lparr>topic_id = ''limits'', level = INTRODUCED,
           last_practiced = Some ''2024-01-01T00:00:00'', practice_count = 1,
           total_time_seconds = 60, average_score = 0.9,
           history = [\<lparr>timestamp = ''2024-01-01T00:00:00'', score = 0.9, level_before = 0,
                       level_after = 1, problem_type = '''', time_spent_seconds = 60\<rparr>],
           stability = 1.26, last_review = Some ''2024-01-02T00:00:00''\<rparr>
   \<and> (0.5::real) \<le> 1.26 \<and> (1.26::real) \<le> 10"
proof -
  let ?cs = "[RecordPractice ''2024-01-01T00:00:00'' ''limits'' 0.9 '''' 60,
       ApplyFireCredit (\<lambda>k. ''2024-01-02T00:00:00'') ''derivatives'' [(''limits'', 0.5)] 1]"
  let ?r = "\<lparr>topic_id = ''limits'', level = INTRODUCED,
           last_practiced = Some ''2024-01-01T00:00:00'', practice_count = 1,
           total_time_seconds = 60, average_score = 0.9,
           history = [\<lparr>timestamp = ''2024-01-01T00:00:00'', score = 0.9, level_before = 0,
                       level_after = 1, problem_type = '''', time_spent_seconds = 60\<rparr>],
           stability = 1.26, last_review = Some ''2024-01-02T00:00:00''\<rparr>"
  have run: "map_of (records (exec_calls \<lparr>records = []\<rparr> ?cs)) ''limits'' = Some ?r"
    by (simp add: exec_calls_def tracker_record_practice_def get_record_def new_record_def
        record_practice_def from_score_def MasteryLevel_of_def apply_fire_credit_def
        fire_credit_step_def truthy_def Let_def)
  have h1: "\<forall>r \<in> snd ` set (records \<lparr>records = []\<rparr>). 0.5 \<le> stability r \<and> stability r \<le> 10"
    by simp
  have h2: "\<forall>now t ws b. ApplyFireCredit now t ws b \<in> set ?cs \<longrightarrow>
           0 \<le> b \<or> (\<forall>w \<in> snd ` set ws. 0 \<le> w)"
    by simp
  from record_stability_bounds [OF h1 h2 run] run show ?thesis by simp
qed

text \<open>
  C9, as the specification states it, fails for arbitrary weights: a FIRe credit with weight
  \<open>-10\<close> and base score \<open>-1\<close> passes the \<open>0.3\<close> gate and multiplies the stability by 0.
\<close>

theorem record_stability_negative_weight:
  "map_of (records (exec_calls \<lparr>records = []\<rparr>
      [RecordPractice ''2024-01-01T00:00:00'' ''limits'' 0.5 '''' 60,
       ApplyFireCredit (\<lambda>k. ''2024-01-02T00:00:00'') ''derivatives'' [(''limits'', - 10)] (- 1)]))
     ''limits''
   = Some \<lparr>topic_id = ''limits'', level = INTRODUCED,
           last_practiced = Some ''2024-01-01T00:00:00'', practice_count = 1,
           total_time_seconds = 60, average_score = 0.5,
           history = [\<lparr>timestamp = ''2024-01-01T00:00:00'', score = 0.5, level_before = 0,
                       level_after = 1, problem_type = '''', time_spent_seconds = 60\<rparr>],
           stability = 0, last_review = Some ''2024-01-02T00:00:00''\<rparr>"
  by (simp add: exec_calls_def tracker_record_practice_def get_record_def new_record_def
        record_practice_def from_score_def MasteryLevel_of_def apply_fire_credit_def
        fire_credit_step_def truthy_def Let_def)

section \<open>Due reviews\<close>

lemma due_item_never_reviewed:
  assumes "level r \<noteq> UNKNOWN" and "\<not> truthy (last_review r)"
    and "0 < threshold" and "threshold < 1"
  shows "due_item ex ds pd sched threshold r =
     Inr (Some \<lparr>item_topic_id = topic_id r, retention = 0,
                priority = get_review_priority 0 (1 + real_of_int (level_value (level r)) * 0.2)
                             (max 0 (0 - (- stability r * ln threshold))),
                days_since_review = 0, optimal_review_date = None,
                mastery_level = level_name_lower (level r)\<rparr>)"
  using assms
  by (auto simp: due_item_def truthy_def optimal_review_interval_def Let_def split: option.splits)

lemma due_item_invalid_threshold:
  assumes "level r \<noteq> UNKNOWN" and "\<not> truthy (last_review r)" and "1 \<le> threshold"
  shows "due_item ex ds pd sched threshold r = Inl TargetRetentionOutOfRange"
  using assms
  by (auto simp: due_item_def truthy_def optimal_review_interval_def Let_def split: option.splits)

lemma never_reviewed_priority:
  assumes "0 \<le> S" and "0 < threshold" and "threshold < 1"
  shows "max 0 (0 - (- S * ln threshold)) = 0"
    and "get_review_priority 0 lw (max 0 (0 - (- S * ln threshold))) = lw"
proof -
  have "ln threshold < 0" using assms by simp
  then have "S * ln threshold \<le> 0" using assms(1) by (simp add: mult_nonneg_nonpos)
  then show a: "max 0 (0 - (- S * ln threshold)) = 0" by simp
  show "get_review_priority 0 lw (max 0 (0 - (- S * ln threshold))) = lw"
    unfolding a by (simp add: get_review_priority_def)
qed

lemma collect_due_member:
  "collect_due ex ds pd sched threshold rs = Inr items \<Longrightarrow> r \<in> set rs \<Longrightarrow>
   due_item ex ds pd sched threshold r = Inr (Some it) \<Longrightarrow> it \<in> set items"
proof (induction rs arbitrary: items)
  case Nil
  then show ?case by simp
next
  case (Cons a rs)
  then show ?case
    by (auto split: sum.splits option.splits)
qed

lemma collect_due_raises:
  "r \<in> set rs \<Longrightarrow> due_item ex ds pd sched threshold r = Inl e \<Longrightarrow>
   \<exists>e'. collect_due ex ds pd sched threshold rs = Inl e'"
proof (induction rs)
  case Nil
  then show ?case by simp
next
  case (Cons a rs)
  then show ?case
    by (auto split: sum.splits option.splits)
qed

lemma collect_due_length:
  "collect_due ex ds pd sched threshold rs = Inr items \<Longrightarrow> length items \<le> length rs"
proof (induction rs arbitrary: items)
  case Nil
  then show ?case by simp
next
  case (Cons a rs)
  then show ?case
    by (fastforce split: sum.splits option.splits)
qed

lemma due_item_total:
  assumes "\<forall>x \<le> 0. \<exists>y. ex x = Inr y"
    and "\<forall>s. \<exists>d \<ge> 0. ds s = Inr d" and "\<forall>s d. \<exists>s'. pd s d = Inr s'"
    and "0 < target_retention sched" and "target_retention sched < 1"
    and "0 < threshold" and "threshold < 1"
  shows "\<exists>res. due_item ex ds pd sched threshold r = Inr res"
proof -
  have nrd: "\<exists>d. next_review_date pd sched s (stability r) = Inr d" for s
    using assms(3-5) by (simp add: next_review_date_def optimal_review_interval_def)
  have ori: "optimal_review_interval threshold (stability r) = Inr (- stability r * ln threshold)"
    using assms(6,7) by (simp add: optimal_review_interval_def)
  have cr: "\<exists>ret. calculate_retention ex d (stability r) = Inr ret" if "0 \<le> d" for d
  proof (cases "stability r \<le> 0")
    case True
    then show ?thesis by (simp add: calculate_retention_def)
  next
    case False
    with that have "- d / stability r \<le> 0" by (simp add: divide_le_0_iff)
    with assms(1) obtain y where "ex (- d / stability r) = Inr y" by blast
    with False show ?thesis by (simp add: calculate_retention_def)
  qed
  show ?thesis
  proof (cases "last_review r")
    case None
    then show ?thesis by (simp add: due_item_def ori Let_def)
  next
    case (Some s)
    obtain d where d: "ds s = Inr d" "0 \<le> d" using assms(2) by blast
    obtain ret where ret: "calculate_retention ex d (stability r) = Inr ret"
      using cr [OF d(2)] by blast
    obtain d' where d': "next_review_date pd sched s (stability r) = Inr d'" using nrd by blast
    show ?thesis by (simp add: due_item_def ori Let_def Some d ret d')
  qed
qed

lemma collect_due_total:
  assumes "\<forall>x \<le> 0. \<exists>y. ex x = Inr y"
    and "\<forall>s. \<exists>d \<ge> 0. ds s = Inr d" and "\<forall>s d. \<exists>s'. pd s d = Inr s'"
    and "0 < target_retention sched" and "target_retention sched < 1"
    and "0 < threshold" and "threshold < 1"
  shows "\<exists>items. collect_due ex ds pd sched threshold rs = Inr items"
proof (induction rs)
  case Nil
  then show ?case by simp
next
  case (Cons r rs)
  from due_item_total [OF assms, of r] obtain res
    where "due_item ex ds pd sched threshold r = Inr res" by blast
  with Cons show ?case by (auto split: option.splits)
qed

text \<open>
  C10, as the code behaves. Take a record of the tracker whose level is not Unknown and
  that has no last review, and a positive threshold. For a threshold below 1 the record
  yields an item with retention 0, elapsed time 0 and no optimal review date; when the
  stability of the record is not negative, its days overdue are 0 and its priority is the
  level weight. Whenever \<open>get_due_reviews\<close> returns, the result is the truncation of a list
  that holds the item, and holds the item itself when the limit is at least the number of
  records. The call returns when \<^verbatim>\<open>math.exp\<close> returns on arguments that are not positive,
  every last review parses and does not lie in the future, the date arithmetic raises
  nothing and the target retention of the schedule lies strictly between 0 and 1. For a
  threshold of 1 or more the record raises the invalid-target error, so the call returns
  no list.
\<close>

theorem get_due_reviews_never_reviewed:
  assumes "(k, r) \<in> set (records tr)"
    and "level r \<noteq> UNKNOWN" and "\<not> truthy (last_review r)"
    and "0 < threshold"
  shows "(threshold < 1 \<longrightarrow>
          (\<exists>it. due_item ex ds pd sched threshold r = Inr (Some it)
             \<and> item_topic_id it = topic_id r \<and> retention it = 0 \<and> days_since_review it = 0
             \<and> optimal_review_date it = None
             \<and> (0 \<le> stability r \<longrightarrow>
                  max 0 (days_since_review it - (- stability r * ln threshold)) = 0
                  \<and> priority it = 1 + real_of_int (level_value (level r)) * 0.2)
             \<and> (\<forall>res. get_due_reviews ex ds pd sched tr limit threshold = Inr res \<longrightarrow>
                  (\<exists>items. it \<in> set items \<and> res = slice_to items limit)
                  \<and> (int (length (records tr)) \<le> limit \<longrightarrow> it \<in> set res))
             \<and> ((\<forall>x \<le> 0. \<exists>y. ex x = Inr y) \<and> (\<forall>s. \<exists>d \<ge> 0. ds s = Inr d)
                  \<and> (\<forall>s d. \<exists>s'. pd s d = Inr s')
                  \<and> 0 < target_retention sched \<and> target_retention sched < 1 \<longrightarrow>
                  (\<exists>res. get_due_reviews ex ds pd sched tr limit threshold = Inr res))))
       \<and> (1 \<le> threshold \<longrightarrow>
             due_item ex ds pd sched threshold r = Inl TargetRetentionOutOfRange
             \<and> (\<exists>e. get_due_reviews ex ds pd sched tr limit threshold = Inl e))"
proof (intro conjI impI)
  assume lt: "threshold < 1"
  let ?it = "\<lparr>item_topic_id = topic_id r, retention = 0,
                priority = get_review_priority 0 (1 + real_of_int (level_value (level r)) * 0.2)
                             (max 0 (0 - (- stability r * ln threshold))),
                days_since_review = 0, optimal_review_date = None,
                mastery_level = level_name_lower (level r)\<rparr>"
  have it: "due_item ex ds pd sched threshold r = Inr (Some ?it)"
    by (rule due_item_never_reviewed [OF assms(2-4) lt])
  have prio: "max 0 (days_since_review ?it - (- stability r * ln threshold)) = 0
      \<and> priority ?it = 1 + real_of_int (level_value (level r)) * 0.2" if "0 \<le> stability r"
    using never_reviewed_priority [OF that assms(4) lt] by simp
  have mem: "r \<in> set (map snd (records tr))" using assms(1) by force
  have incl: "(\<exists>items. ?it \<in> set items \<and> res = slice_to items limit)
                \<and> (int (length (records tr)) \<le> limit \<longrightarrow> ?it \<in> set res)"
    if res: "get_due_reviews ex ds pd sched tr limit threshold = Inr res" for res
  proof -
    from res obtain items
      where c: "collect_due ex ds pd sched threshold (map snd (records tr)) = Inr items"
        and r: "res = slice_to (sort_key (\<lambda>x. - priority x) items) limit"
      by (auto simp: get_due_reviews_def split: sum.splits)
    have m: "?it \<in> set (sort_key (\<lambda>x. - priority x) items)"
      using collect_due_member [OF c mem it] by simp
    have "length items \<le> length (records tr)" using collect_due_length [OF c] by simp
    then have "?it \<in> set res" if "int (length (records tr)) \<le> limit"
      using that m by (simp add: r slice_to_def)
    with m r show ?thesis by blast
  qed
  have tot: "\<exists>res. get_due_reviews ex ds pd sched tr limit threshold = Inr res"
    if "(\<forall>x \<le> 0. \<exists>y. ex x = Inr y) \<and> (\<forall>s. \<exists>d \<ge> 0. ds s = Inr d)
          \<and> (\<forall>s d. \<exists>s'. pd s d = Inr s')
          \<and> 0 < target_retention sched \<and> target_retention sched < 1"
  proof -
    from that collect_due_total [of ex ds pd sched threshold "map snd (records tr)"] assms(4) lt
    obtain items where "collect_due ex ds pd sched threshold (map snd (records tr)) = Inr items"
      by blast
    then show ?thesis by (simp add: get_due_reviews_def)
  qed
  show "\<exists>it. due_item ex ds pd sched threshold r = Inr (Some it)
             \<and> item_topic_id it = topic_id r \<and> retention it = 0 \<and> days_since_review it = 0
             \<and> optimal_review_date it = None
             \<and> (0 \<le> stability r \<longrightarrow>
                  max 0 (days_since_review it - (- stability r * ln threshold)) = 0
                  \<and> priority it = 1 + real_of_int (level_value (level r)) * 0.2)
             \<and> (\<forall>res. get_due_reviews ex ds pd sched tr limit threshold = Inr res \<longrightarrow>
                  (\<exists>items. it \<in> set items \<and> res = slice_to items limit)
                  \<and> (int (length (records tr)) \<le> limit \<longrightarrow> it \<in> set res))
             \<and> ((\<forall>x \<le> 0. \<exists>y. ex x = Inr y) \<and> (\<forall>s. \<exists>d \<ge> 0. ds s = Inr d)
                  \<and> (\<forall>s d. \<exists>s'. pd s d = Inr s')
                  \<and> 0 < target_retention sched \<and> target_retention sched < 1 \<longrightarrow>
                  (\<exists>res. get_due_reviews ex ds pd sched tr limit threshold = Inr res))"
  proof (intro exI [of _ ?it] conjI)
    show "due_item ex ds pd sched threshold r = Inr (Some ?it)" by (rule it)
    show "item_topic_id ?it = topic_id r" "retention ?it = 0" "days_since_review ?it = 0"
      "optimal_review_date ?it = None" by simp_all
    show "0 \<le> stability r \<longrightarrow>
        max 0 (days_since_review ?it - (- stability r * ln threshold)) = 0
        \<and> priority ?it = 1 + real_of_int (level_value (level r)) * 0.2"
      using prio by blast
    show "\<forall>res. get_due_reviews ex ds pd sched tr limit threshold = Inr res \<longrightarrow>
        (\<exists>items. ?it \<in> set items \<and> res = slice_to items limit)
        \<and> (int (length (records tr)) \<le> limit \<longrightarrow> ?it \<in> set res)"
      using incl by blast
    show "(\<forall>x \<le> 0. \<exists>y. ex x = Inr y) \<and> (\<forall>s. \<exists>d \<ge> 0. ds s = Inr d)
        \<and> (\<forall>s d. \<exists>s'. pd s d = Inr s')
        \<and> 0 < target_retention sched \<and> target_retention sched < 1 \<longrightarrow>
        (\<exists>res. get_due_reviews ex ds pd sched tr limit threshold = Inr res)"
      using tot by blast
  qed
next
  assume ge: "1 \<le> threshold"
  show e: "due_item ex ds pd sched threshold r = Inl TargetRetentionOutOfRange"
    by (rule due_item_invalid_threshold [OF assms(2,3) ge])
  have mem: "r \<in> set (map snd (records tr))" using assms(1) by force
  from collect_due_raises [OF mem e]
  show "\<exists>e. get_due_reviews ex ds pd sched tr limit threshold = Inl e"
    by (auto simp: get_due_reviews_def)
qed

theorem get_due_reviews_never_reviewed_witness:
  "(''limits'', (new_record ''limits'')\<lparr>level := INTRODUCED\<rparr>)
     \<in> set (records \<lparr>records = [(''limits'', (new_record ''limits'')\<lparr>level := INTRODUCED\<rparr>)]\<rparr>)
   \<and> level ((new_record ''limits'')\<lparr>level := INTRODUCED\<rparr>) \<noteq> UNKNOWN
   \<and> \<not> truthy (last_review ((new_record ''limits'')\<lparr>level := INTRODUCED\<rparr>))
   \<and> (0::real) < 0.7 \<and> (0.7::real) < 1
   \<and> (\<exists>it. retention it = 0 \<and> days_since_review it = 0 \<and> optimal_review_date it = None
          \<and> priority it = 1.2
          \<and> get_due_reviews double_exp (\<lambda>s. Inr 0) (\<lambda>s d. Inr s)
               \<lparr>target_retention = 0.85, min_interval = 0.5, max_interval = 180\<rparr>
               \<lparr>records = [(''limits'', (new_record ''limits'')\<lparr>level := INTRODUCED\<rparr>)]\<rparr> 10 0.7
             = Inr [it])
   \<and> (\<exists>e. get_due_reviews double_exp (\<lambda>s. Inr 0) (\<lambda>s d. Inr s)
               \<lparr>target_retention = 0.85, min_interval = 0.5, max_interval = 180\<rparr>
               \<lparr>records = [(''limits'', (new_record ''limits'')\<lparr>level := INTRODUCED\<rparr>)]\<rparr> 10 2
             = Inl e)"
proof -
  let ?r = "(new_record ''limits'')\<lparr>level := INTRODUCED\<rparr>"
  let ?tr = "\<lparr>records = [(''limits'', ?r)]\<rparr>"
  let ?ds = "\<lambda>s::string. (Inr 0 :: error + real)"
  let ?pd = "\<lambda>(s::string) (d::real). (Inr s :: error + string)"
  let ?sched = "\<lparr>target_retention = 0.85, min_interval = 0.5, max_interval = 180\<rparr>"
  have h1: "(''limits'', ?r) \<in> set (records ?tr)" by simp
  have h2: "level ?r \<noteq> UNKNOWN" by simp
  have h3: "\<not> truthy (last_review ?r)" by (simp add: truthy_def new_record_def)
  have h4: "(0::real) < 0.7" and h5: "(0.7::real) < 1" and h6: "(0::real) < 2"
    and h7: "(1::real) \<le> 2" by simp_all
  from get_due_reviews_never_reviewed [OF h1 h2 h3 h4, of double_exp ?ds ?pd ?sched 10] h5
  obtain it where it: "due_item double_exp ?ds ?pd ?sched 0.7 ?r = Inr (Some it)"
    and f: "retention it = 0" "days_since_review it = 0" "optimal_review_date it = None"
    and p: "0 \<le> stability ?r \<longrightarrow> priority it = 1 + real_of_int (level_value (level ?r)) * 0.2"
    by blast
  have "priority it = 1.2" using p by (simp add: new_record_def)
  moreover have "get_due_reviews double_exp ?ds ?pd ?sched ?tr 10 0.7 = Inr [it]"
    using it by (simp add: get_due_reviews_def slice_to_def)
  moreover from get_due_reviews_never_reviewed [OF h1 h2 h3 h6, of double_exp ?ds ?pd ?sched 10] h7
  have "\<exists>e. get_due_reviews double_exp ?ds ?pd ?sched ?tr 10 2 = Inl e" by blast
  ultimately show ?thesis using f h1 h2 h3 by simp
qed

lemma ln_half_bound: "ln (1 / 2 :: real) \<le> - (1 / 2)"
  using ln_one_minus_pos_upper_bound [of "1 / 2 :: real"] by simp

text \<open>
  C10, as stated, fails in two places. At threshold 1, which is positive, the guard of
  \<open>optimal_review_interval\<close> raises and the call returns no list. And the days overdue of
  a record without last review are not 0 when its stability is negative: at stability
  \<open>-100\<close> and threshold \<open>0.5\<close> they exceed 7, so the priority is twice the level weight
  \<open>1.2\<close> that days overdue of 0 would give.
\<close>

theorem get_due_reviews_not_as_stated:
  "get_due_reviews double_exp (\<lambda>s. Inr 0) (\<lambda>s d. Inr s)
     \<lparr>target_retention = 0.85, min_interval = 0.5, max_interval = 180\<rparr>
     \<lparr>records = [(''limits'', (new_record ''limits'')\<lparr>level := INTRODUCED\<rparr>)]\<rparr> 10 1
   = Inl TargetRetentionOutOfRange
   \<and> (case get_due_reviews double_exp (\<lambda>s. Inr 0) (\<lambda>s d. Inr s)
       \<lparr>target_retention = 0.85, min_interval = 0.5, max_interval = 180\<rparr>
       \<lparr>records = [(''limits'',
          (new_record ''limits'')\<lparr>level := INTRODUCED, stability := - 100\<rparr>)]\<rparr> 10 0.5 of
         Inl e \<Rightarrow> [] | Inr items \<Rightarrow> map priority items)
   = [2.4]
   \<and> 7 \<le> max 0 (0 - (- (- 100) * ln (0.5 :: real)))"
proof -
  let ?ds = "\<lambda>s::string. (Inr 0 :: error + real)"
  let ?pd = "\<lambda>(s::string) (d::real). (Inr s :: error + string)"
  let ?sched = "\<lparr>target_retention = 0.85, min_interval = 0.5, max_interval = 180\<rparr>"
  have od: "7 \<le> max 0 (0 - (- (- 100) * ln (0.5 :: real)))"
    using ln_half_bound by simp
  then have pen: "min 1 (max 0 (0 - (- (- 100) * ln (0.5 :: real))) / 7) = 1" by simp
  have a: "get_due_reviews double_exp ?ds ?pd ?sched
     \<lparr>records = [(''limits'', (new_record ''limits'')\<lparr>level := INTRODUCED\<rparr>)]\<rparr> 10 1
   = Inl TargetRetentionOutOfRange"
    by (simp add: get_due_reviews_def due_item_def new_record_def optimal_review_interval_def)
  have b: "(case get_due_reviews double_exp ?ds ?pd ?sched
       \<lparr>records = [(''limits'',
          (new_record ''limits'')\<lparr>level := INTRODUCED, stability := - 100\<rparr>)]\<rparr> 10 0.5 of
         Inl e \<Rightarrow> [] | Inr items \<Rightarrow> map priority items) = [2.4]"
    using pen
    by (simp add: get_due_reviews_def due_item_def new_record_def optimal_review_interval_def
        get_review_priority_def slice_to_def Let_def)
  from a b od show ?thesis by (intro conjI)
qed

section \<open>Cycle check\<close>

lemma would_create_cycle_loop_closed:
  "\<not> would_create_cycle_loop g p V Q \<Longrightarrow>
   \<forall>v \<in> set V. v \<noteq> p \<and> set (get_or_empty (dependents g) v) \<subseteq> set V \<union> set Q \<Longrightarrow>
   \<exists>W. set V \<union> set Q \<subseteq> W \<and> p \<notin> W \<and> (\<forall>v \<in> W. set (get_or_empty (dependents g) v) \<subseteq> W)"
proof (induction g p V Q rule: would_create_cycle_loop.induct)
  case (1 self pid visited)
  then show ?case by (intro exI [of _ "set visited"]) auto
next
  case (2 self pid visited current queue)
  from "2.prems"(1) have ne: "current \<noteq> pid" by (auto split: if_splits)
  show ?case
  proof (cases "current \<in> set visited")
    case True
    with "2.prems" ne have a: "\<not> would_create_cycle_loop self pid visited queue" by simp
    have b: "\<forall>v \<in> set visited. v \<noteq> pid
        \<and> set (get_or_empty (dependents self) v) \<subseteq> set visited \<union> set queue"
      using "2.prems"(2) True by auto
    from "2.IH"(1) [OF ne True a b] obtain W
      where "set visited \<union> set queue \<subseteq> W" "pid \<notin> W"
        "\<forall>v \<in> W. set (get_or_empty (dependents self) v) \<subseteq> W" by blast
    then show ?thesis using True by (intro exI [of _ W]) auto
  next
    case False
    with "2.prems" ne have a: "\<not> would_create_cycle_loop self pid (set_add visited current)
        (queue @ get_or_empty (dependents self) current)" by simp
    have b: "\<forall>v \<in> set (set_add visited current). v \<noteq> pid
        \<and> set (get_or_empty (dependents self) v)
            \<subseteq> set (set_add visited current) \<union> set (queue @ get_or_empty (dependents self) current)"
      using "2.prems"(2) ne by (auto simp: set_add_def)
    from "2.IH"(2) [OF ne False a b] obtain W
      where "set (set_add visited current) \<union> set (queue @ get_or_empty (dependents self) current) \<subseteq> W"
        "pid \<notin> W" "\<forall>v \<in> W. set (get_or_empty (dependents self) v) \<subseteq> W" by blast
    then show ?thesis by (intro exI [of _ W]) (auto simp: set_add_def)
  qed
qed

lemma would_create_cycle_loop_sound:
  "would_create_cycle_loop g p V Q \<Longrightarrow> set Q \<subseteq> (dependent_rel g)\<^sup>* `` {t} \<Longrightarrow>
   (t, p) \<in> (dependent_rel g)\<^sup>*"
proof (induction g p V Q rule: would_create_cycle_loop.induct)
  case (1 self pid visited)
  then show ?case by simp
next
  case (2 self pid visited current queue)
  show ?case
  proof (cases "current = pid")
    case True
    then show ?thesis using "2.prems"(2) by auto
  next
    case ne: False
    show ?thesis
    proof (cases "current \<in> set visited")
      case True
      with "2.prems" ne have "would_create_cycle_loop self pid visited queue" by simp
      from "2.IH"(1) [OF ne True this] "2.prems"(2) show ?thesis by auto
    next
      case False
      with "2.prems" ne have a: "would_create_cycle_loop self pid (set_add visited current)
        (queue @ get_or_empty (dependents self) current)" by simp
      have c: "(t, current) \<in> (dependent_rel self)\<^sup>*" using "2.prems"(2) by auto
      have "set (get_or_empty (dependents self) current) \<subseteq> (dependent_rel self)\<^sup>* `` {t}"
      proof
        fix y assume "y \<in> set (get_or_empty (dependents self) current)"
        then have "(current, y) \<in> dependent_rel self" by (simp add: dependent_rel_def)
        with c show "y \<in> (dependent_rel self)\<^sup>* `` {t}" by (auto intro: rtrancl_into_rtrancl)
      qed
      with "2.prems"(2)
      have "set (queue @ get_or_empty (dependents self) current) \<subseteq> (dependent_rel self)\<^sup>* `` {t}"
        by auto
      from "2.IH"(2) [OF ne False a this] show ?thesis .
    qed
  qed
qed

lemma closed_rtrancl:
  assumes "(t, x) \<in> r\<^sup>*" and "t \<in> W" and "\<forall>v \<in> W. r `` {v} \<subseteq> W"
  shows "x \<in> W"
  using assms by (induction rule: rtrancl_induct) auto

lemma would_create_cycle_iff:
  "would_create_cycle g t p \<longleftrightarrow> (t, p) \<in> (dependent_rel g)\<^sup>*"
proof
  assume "would_create_cycle g t p"
  then show "(t, p) \<in> (dependent_rel g)\<^sup>*"
    unfolding would_create_cycle_def
    by (rule would_create_cycle_loop_sound) simp
next
  assume r: "(t, p) \<in> (dependent_rel g)\<^sup>*"
  show "would_create_cycle g t p"
  proof (rule ccontr)
    assume "\<not> would_create_cycle g t p"
    then have "\<not> would_create_cycle_loop g p [] [t]" by (simp add: would_create_cycle_def)
    from would_create_cycle_loop_closed [OF this] obtain W
      where W: "t \<in> W" "p \<notin> W" "\<forall>v \<in> W. set (get_or_empty (dependents g) v) \<subseteq> W" by auto
    have "\<forall>v \<in> W. dependent_rel g `` {v} \<subseteq> W" using W(3) by (auto simp: dependent_rel_def)
    from closed_rtrancl [OF r W(1) this] W(2) show False by simp
  qed
qed

lemma get_or_empty_defaultdict_add:
  "get_or_empty (defaultdict_add d k x) k' =
     (if k' = k then set_add (get_or_empty d k) x else get_or_empty d k')"
  by (simp add: get_or_empty_def defaultdict_add_def update_conv')

lemma add_prerequisite_success:
  assumes "add_prerequisite g t p = (None, g')"
  shows "topics g' = topics g"
    and "get_or_empty (dependents g') k =
           (if k = p then set_add (get_or_empty (dependents g) p) t
            else get_or_empty (dependents g) k)"
    and "get_or_empty (prerequisites g') k =
           (if k = t then set_add (get_or_empty (prerequisites g) t) p
            else get_or_empty (prerequisites g) k)"
    and "map_of (topics g) t \<noteq> None" and "map_of (topics g) p \<noteq> None"
    and "\<not> would_create_cycle g t p"
  using assms
  by (auto simp: add_prerequisite_def get_or_empty_defaultdict_add split: if_splits)

text \<open>
  C1. When \<open>add_prerequisite(B, A)\<close> and then \<open>add_prerequisite(C, B)\<close> have succeeded (so
  the three ids are registered), \<open>add_prerequisite(A, C)\<close> raises the cycle error and leaves
  the graph, in particular its prerequisites and dependents, as it was.
\<close>

theorem add_prerequisite_rejects_cycle:
  assumes "add_prerequisite g B A = (None, g1)"
    and "add_prerequisite g1 C B = (None, g2)"
  shows "fst (add_prerequisite g2 A C) = Some (WouldCreateCycle C A)
       \<and> prerequisites (snd (add_prerequisite g2 A C)) = prerequisites g2
       \<and> dependents (snd (add_prerequisite g2 A C)) = dependents g2
       \<and> snd (add_prerequisite g2 A C) = g2"
proof -
  note s1 = add_prerequisite_success [OF assms(1)]
  note s2 = add_prerequisite_success [OF assms(2)]
  have "B \<in> set (get_or_empty (dependents g1) A)"
    using s1(2) [of A] by (simp add: set_add_def)
  then have ab: "B \<in> set (get_or_empty (dependents g2) A)"
    using s2(2) [of A] by (auto simp: set_add_def)
  have bc: "C \<in> set (get_or_empty (dependents g2) B)"
    using s2(2) [of B] by (simp add: set_add_def)
  have "(A, B) \<in> dependent_rel g2" "(B, C) \<in> dependent_rel g2"
    using ab bc by (simp_all add: dependent_rel_def)
  then have "(A, C) \<in> (dependent_rel g2)\<^sup>*" by (meson rtrancl.simps)
  then have cyc: "would_create_cycle g2 A C" by (simp add: would_create_cycle_iff)
  have reg: "map_of (topics g2) A \<noteq> None" "map_of (topics g2) C \<noteq> None"
    using s1(4,5) s1(1) s2(1) s2(4,5) by simp_all
  show ?thesis using cyc reg by (auto simp: add_prerequisite_def)
qed

theorem add_prerequisite_rejects_cycle_witness:
  "add_prerequisite
     \<lparr>topics = [(''a'', new_topic ''a'' ''A'' ''math''), (''b'', new_topic ''b'' ''B'' ''math''),
                (''c'', new_topic ''c'' ''C'' ''math'')],
      prerequisites = [], dependents = []\<rparr> ''b'' ''a''
   = (None,
      \<lparr>topics = [(''a'', new_topic ''a'' ''A'' ''math''), (''b'', new_topic ''b'' ''B'' ''math''),
                 (''c'', new_topic ''c'' ''C'' ''math'')],
       prerequisites = [(''b'', [''a''])], dependents = [(''a'', [''b''])]\<rparr>)
   \<and> add_prerequisite
     \<lparr>topics = [(''a'', new_topic ''a'' ''A'' ''math''), (''b'', new_topic ''b'' ''B'' ''math''),
                (''c'', new_topic ''c'' ''C'' ''math'')],
      prerequisites = [(''b'', [''a''])], dependents = [(''a'', [''b''])]\<rparr> ''c'' ''b''
   = (None,
      \<lparr>topics = [(''a'', new_topic ''a'' ''A'' ''math''), (''b'', new_topic ''b'' ''B'' ''math''),
                 (''c'', new_topic ''c'' ''C'' ''math'')],
       prerequisites = [(''b'', [''a'']), (''c'', [''b''])],
       dependents = [(''a'', [''b'']), (''b'', [''c''])]\<rparr>)
   \<and> add_prerequisite
     \<lparr>topics = [(''a'', new_topic ''a'' ''A'' ''math''), (''b'', new_topic ''b'' ''B'' ''math''),
                (''c'', new_topic ''c'' ''C'' ''math'')],
      prerequisites = [(''b'', [''a'']), (''c'', [''b''])],
      dependents = [(''a'', [''b'']), (''b'', [''c''])]\<rparr> ''a'' ''c''
   = (Some (WouldCreateCycle ''c'' ''a''),
      \<lparr>topics = [(''a'', new_topic ''a'' ''A'' ''math''), (''b'', new_topic ''b'' ''B'' ''math''),
                 (''c'', new_topic ''c'' ''C'' ''math'')],
       prerequisites = [(''b'', [''a'']), (''c'', [''b''])],
       dependents = [(''a'', [''b'']), (''b'', [''c''])]\<rparr>)"
proof -
  let ?ts = "[(''a'', new_topic ''a'' ''A'' ''math''), (''b'', new_topic ''b'' ''B'' ''math''),
                (''c'', new_topic ''c'' ''C'' ''math'')]"
  let ?g = "\<lparr>topics = ?ts, prerequisites = [], dependents = []\<rparr>"
  let ?g1 = "\<lparr>topics = ?ts, prerequisites = [(''b'', [''a''])], dependents = [(''a'', [''b''])]\<rparr>"
  let ?g2 = "\<lparr>topics = ?ts, prerequisites = [(''b'', [''a'']), (''c'', [''b''])],
       dependents = [(''a'', [''b'']), (''b'', [''c''])]\<rparr>"
  have h1: "add_prerequisite ?g ''b'' ''a'' = (None, ?g1)"
    by (simp add: add_prerequisite_def would_create_cycle_def defaultdict_add_def
        get_or_empty_def set_add_def)
  have h2: "add_prerequisite ?g1 ''c'' ''b'' = (None, ?g2)"
    by (simp add: add_prerequisite_def would_create_cycle_def defaultdict_add_def
        get_or_empty_def set_add_def)
  from add_prerequisite_rejects_cycle [OF h1 h2] h1 h2
  show ?thesis by (simp add: prod_eq_iff)
qed

section \<open>Transitive prerequisites\<close>

lemma all_prereqs_loop_props:
  "set V \<union> set Q \<subseteq> set (all_prereqs_loop g V Q)
   \<and> set (all_prereqs_loop g V Q) \<subseteq> set V \<union> (prereq_rel g)\<^sup>* `` set Q
   \<and> (distinct V \<longrightarrow> distinct (all_prereqs_loop g V Q))
   \<and> ((\<forall>v \<in> set V. set (get_or_empty (prerequisites g) v) \<subseteq> set V \<union> set Q) \<longrightarrow>
        (\<forall>v \<in> set (all_prereqs_loop g V Q).
           set (get_or_empty (prerequisites g) v) \<subseteq> set (all_prereqs_loop g V Q)))"
proof (induction g V Q rule: all_prereqs_loop.induct)
  case (1 self all_prereqs)
  then show ?case by simp
next
  case (2 self all_prereqs pid queue)
  show ?case
  proof (cases "pid \<in> set all_prereqs")
    case True
    note IH = "2.IH"(1) [OF True]
    have eq: "all_prereqs_loop self all_prereqs (pid # queue) = all_prereqs_loop self all_prereqs queue"
      using True by simp
    have a: "set all_prereqs \<union> set (pid # queue) \<subseteq> set (all_prereqs_loop self all_prereqs queue)"
      using IH True by auto
    have b: "set (all_prereqs_loop self all_prereqs queue)
        \<subseteq> set all_prereqs \<union> (prereq_rel self)\<^sup>* `` set (pid # queue)"
      using IH by auto
    have c: "(\<forall>v \<in> set all_prereqs.
        set (get_or_empty (prerequisites self) v) \<subseteq> set all_prereqs \<union> set (pid # queue)) \<longrightarrow>
        (\<forall>v \<in> set (all_prereqs_loop self all_prereqs queue).
           set (get_or_empty (prerequisites self) v) \<subseteq> set (all_prereqs_loop self all_prereqs queue))"
    proof
      assume "\<forall>v \<in> set all_prereqs.
        set (get_or_empty (prerequisites self) v) \<subseteq> set all_prereqs \<union> set (pid # queue)"
      then have "\<forall>v \<in> set all_prereqs.
        set (get_or_empty (prerequisites self) v) \<subseteq> set all_prereqs \<union> set queue"
        using True by auto
      with IH show "\<forall>v \<in> set (all_prereqs_loop self all_prereqs queue).
           set (get_or_empty (prerequisites self) v) \<subseteq> set (all_prereqs_loop self all_prereqs queue)"
        by blast
    qed
    show ?thesis unfolding eq using a b c IH by blast
  next
    case False
    let ?V = "set_add all_prereqs pid"
    let ?Q = "queue @ get_or_empty (prerequisites self) pid"
    let ?W = "all_prereqs_loop self ?V ?Q"
    note IH = "2.IH"(2) [OF False]
    have eq: "all_prereqs_loop self all_prereqs (pid # queue) = ?W"
      using False by simp
    have sV: "set ?V = insert pid (set all_prereqs)" by (auto simp: set_add_def)
    have a: "set all_prereqs \<union> set (pid # queue) \<subseteq> set ?W"
      using IH sV by auto
    have step: "(prereq_rel self)\<^sup>* `` set ?Q \<subseteq> (prereq_rel self)\<^sup>* `` set (pid # queue)"
    proof
      fix x assume "x \<in> (prereq_rel self)\<^sup>* `` set ?Q"
      then obtain q where q: "q \<in> set ?Q" "(q, x) \<in> (prereq_rel self)\<^sup>*" by auto
      show "x \<in> (prereq_rel self)\<^sup>* `` set (pid # queue)"
      proof (cases "q \<in> set queue")
        case True
        with q show ?thesis by auto
      next
        case False
        with q have "(pid, q) \<in> prereq_rel self" by (auto simp: prereq_rel_def)
        with q have "(pid, x) \<in> (prereq_rel self)\<^sup>*" by (meson converse_rtrancl_into_rtrancl)
        then show ?thesis by auto
      qed
    qed
    have b: "set ?W \<subseteq> set all_prereqs \<union> (prereq_rel self)\<^sup>* `` set (pid # queue)"
    proof
      fix x assume "x \<in> set ?W"
      with IH have "x \<in> set ?V \<union> (prereq_rel self)\<^sup>* `` set ?Q" by blast
      then show "x \<in> set all_prereqs \<union> (prereq_rel self)\<^sup>* `` set (pid # queue)"
        using step sV by auto
    qed
    have d: "distinct all_prereqs \<longrightarrow> distinct ?W"
      using IH False by (simp add: set_add_def)
    have c: "(\<forall>v \<in> set all_prereqs.
        set (get_or_empty (prerequisites self) v) \<subseteq> set all_prereqs \<union> set (pid # queue)) \<longrightarrow>
        (\<forall>v \<in> set ?W. set (get_or_empty (prerequisites self) v) \<subseteq> set ?W)"
    proof
      assume h: "\<forall>v \<in> set all_prereqs.
        set (get_or_empty (prerequisites self) v) \<subseteq> set all_prereqs \<union> set (pid # queue)"
      have "\<forall>v \<in> set ?V. set (get_or_empty (prerequisites self) v) \<subseteq> set ?V \<union> set ?Q"
        using h sV by auto
      with IH show "\<forall>v \<in> set ?W. set (get_or_empty (prerequisites self) v) \<subseteq> set ?W"
        by blast
    qed
    show ?thesis unfolding eq using a b c d by blast
  qed
qed

lemma all_prerequisite_ids_closed:
  "set (get_or_empty (prerequisites g) t) \<subseteq> set (all_prerequisite_ids g t)"
  "x \<in> set (all_prerequisite_ids g t) \<Longrightarrow>
     set (get_or_empty (prerequisites g) x) \<subseteq> set (all_prerequisite_ids g t)"
  "distinct (all_prerequisite_ids g t)"
  using all_prereqs_loop_props [of "[]" "get_or_empty (prerequisites g) t" g]
  by (auto simp: all_prerequisite_ids_def)

lemma all_prerequisite_ids_least:
  assumes "set (get_or_empty (prerequisites g) t) \<subseteq> S"
    and "\<forall>x \<in> S. set (get_or_empty (prerequisites g) x) \<subseteq> S"
  shows "set (all_prerequisite_ids g t) \<subseteq> S"
proof
  fix x assume "x \<in> set (all_prerequisite_ids g t)"
  with all_prereqs_loop_props [of "[]" "get_or_empty (prerequisites g) t" g]
  obtain q where q: "q \<in> set (get_or_empty (prerequisites g) t)" "(q, x) \<in> (prereq_rel g)\<^sup>*"
    by (auto simp: all_prerequisite_ids_def)
  have "\<forall>v \<in> S. prereq_rel g `` {v} \<subseteq> S" using assms(2) by (auto simp: prereq_rel_def)
  from closed_rtrancl [OF q(2) _ this] q(1) assms(1) show "x \<in> S" by auto
qed

lemma all_prerequisite_ids_trancl:
  "set (all_prerequisite_ids g t) = {p. (t, p) \<in> (prereq_rel g)\<^sup>+}"
proof
  show "set (all_prerequisite_ids g t) \<subseteq> {p. (t, p) \<in> (prereq_rel g)\<^sup>+}"
  proof (rule all_prerequisite_ids_least)
    show "set (get_or_empty (prerequisites g) t) \<subseteq> {p. (t, p) \<in> (prereq_rel g)\<^sup>+}"
      by (auto simp: prereq_rel_def)
    show "\<forall>x \<in> {p. (t, p) \<in> (prereq_rel g)\<^sup>+}.
        set (get_or_empty (prerequisites g) x) \<subseteq> {p. (t, p) \<in> (prereq_rel g)\<^sup>+}"
    proof (intro ballI subsetI)
      fix x y assume "x \<in> {p. (t, p) \<in> (prereq_rel g)\<^sup>+}"
        and "y \<in> set (get_or_empty (prerequisites g) x)"
      then have "(t, x) \<in> (prereq_rel g)\<^sup>+" "(x, y) \<in> prereq_rel g"
        by (simp_all add: prereq_rel_def)
      then show "y \<in> {p. (t, p) \<in> (prereq_rel g)\<^sup>+}" by (auto intro: trancl_into_trancl)
    qed
  qed
next
  show "{p. (t, p) \<in> (prereq_rel g)\<^sup>+} \<subseteq> set (all_prerequisite_ids g t)"
  proof
    fix p assume "p \<in> {p. (t, p) \<in> (prereq_rel g)\<^sup>+}"
    then have "(t, p) \<in> (prereq_rel g)\<^sup>+" by simp
    then show "p \<in> set (all_prerequisite_ids g t)"
    proof (induction rule: trancl_induct)
      case (base y)
      then show ?case using all_prerequisite_ids_closed(1) [of g t] by (auto simp: prereq_rel_def)
    next
      case (step y z)
      then show ?case using all_prerequisite_ids_closed(2) [of y g t]
        by (auto simp: prereq_rel_def)
    qed
  qed
qed

lemma registered_lookup:
  assumes "well_formed g" and "map_of (topics g) k = Some t"
  shows "id' t = k"
  using assms map_of_SomeD [OF assms(2)] by (fastforce simp: well_formed_def)

lemma map_filter_ids:
  assumes "well_formed g" and "\<forall>k \<in> set ks. map_of (topics g) k \<noteq> None"
  shows "map id' (List.map_filter (map_of (topics g)) ks) = ks"
  using assms(2)
proof (induction ks)
  case Nil
  then show ?case by (simp add: map_filter_simps)
next
  case (Cons k ks)
  then obtain t where t: "map_of (topics g) k = Some t" by auto
  from registered_lookup [OF assms(1) t] Cons t show ?case by (simp add: map_filter_simps)
qed

lemma all_prerequisite_ids_registered:
  assumes "well_formed g"
  shows "\<forall>k \<in> set (all_prerequisite_ids g t). map_of (topics g) k \<noteq> None"
proof -
  have "\<And>p. (t, p) \<in> (prereq_rel g)\<^sup>+ \<Longrightarrow> map_of (topics g) p \<noteq> None"
  proof -
    fix p assume "(t, p) \<in> (prereq_rel g)\<^sup>+"
    then obtain y where "(y, p) \<in> prereq_rel g" by (meson tranclE)
    with assms show "map_of (topics g) p \<noteq> None" by (fastforce simp: well_formed_def)
  qed
  then show ?thesis by (simp add: all_prerequisite_ids_trancl)
qed

lemma get_all_prerequisites_ids:
  assumes "well_formed g"
  shows "map id' (get_all_prerequisites g t) = all_prerequisite_ids g t"
  unfolding get_all_prerequisites_def
  by (rule map_filter_ids [OF assms all_prerequisite_ids_registered [OF assms]])

text \<open>
  C4. In a well-formed acyclic graph, the ids of the topics returned by
  \<open>get_all_prerequisites\<close> for a topic are exactly the ids related to it by the transitive
  closure of the direct-prerequisite relation: they hold the direct prerequisites, are
  closed under direct prerequisites, and lie in every set of ids with these two
  properties. The topic itself is not among them.
\<close>

theorem get_all_prerequisites_closure:
  assumes "well_formed g" and "acyclic (prereq_rel g)"
  shows "set (map id' (get_all_prerequisites g t)) = {p. (t, p) \<in> (prereq_rel g)\<^sup>+}
       \<and> set (get_or_empty (prerequisites g) t) \<subseteq> set (map id' (get_all_prerequisites g t))
       \<and> (\<forall>x \<in> set (map id' (get_all_prerequisites g t)).
            set (get_or_empty (prerequisites g) x) \<subseteq> set (map id' (get_all_prerequisites g t)))
       \<and> (\<forall>S. set (get_or_empty (prerequisites g) t) \<subseteq> S
              \<and> (\<forall>x \<in> S. set (get_or_empty (prerequisites g) x) \<subseteq> S)
              \<longrightarrow> set (map id' (get_all_prerequisites g t)) \<subseteq> S)
       \<and> t \<notin> set (map id' (get_all_prerequisites g t))"
proof -
  have e: "map id' (get_all_prerequisites g t) = all_prerequisite_ids g t"
    by (rule get_all_prerequisites_ids [OF assms(1)])
  have "(t, t) \<notin> (prereq_rel g)\<^sup>+" using assms(2) by (simp add: acyclic_def)
  then have n: "t \<notin> set (all_prerequisite_ids g t)" by (simp add: all_prerequisite_ids_trancl)
  have l: "\<forall>S. set (get_or_empty (prerequisites g) t) \<subseteq> S
              \<and> (\<forall>x \<in> S. set (get_or_empty (prerequisites g) x) \<subseteq> S)
              \<longrightarrow> set (all_prerequisite_ids g t) \<subseteq> S"
    using all_prerequisite_ids_least [of g t] by blast
  have c: "\<forall>x \<in> set (all_prerequisite_ids g t).
      set (get_or_empty (prerequisites g) x) \<subseteq> set (all_prerequisite_ids g t)"
    using all_prerequisite_ids_closed(2) [of _ g t] by blast
  show ?thesis
    unfolding e
    by (intro conjI all_prerequisite_ids_trancl all_prerequisite_ids_closed(1) c l n)
qed

theorem get_all_prerequisites_closure_witness:
  "well_formed
     \<lparr>topics = [(''a'', new_topic ''a'' ''A'' ''math''), (''b'', new_topic ''b'' ''B'' ''math''),
                (''c'', new_topic ''c'' ''C'' ''math'')],
      prerequisites = [(''b'', [''a'']), (''c'', [''b''])],
      dependents = [(''a'', [''b'']), (''b'', [''c''])]\<rparr>
   \<and> acyclic (prereq_rel
     \<lparr>topics = [(''a'', new_topic ''a'' ''A'' ''math''), (''b'', new_topic ''b'' ''B'' ''math''),
                (''c'', new_topic ''c'' ''C'' ''math'')],
      prerequisites = [(''b'', [''a'']), (''c'', [''b''])],
      dependents = [(''a'', [''b'']), (''b'', [''c''])]\<rparr>)
   \<and> map id' (get_all_prerequisites
     \<lparr>topics = [(''a'', new_topic ''a'' ''A'' ''math''), (''b'', new_topic ''b'' ''B'' ''math''),
                (''c'', new_topic ''c'' ''C'' ''math'')],
      prerequisites = [(''b'', [''a'']), (''c'', [''b''])],
      dependents = [(''a'', [''b'']), (''b'', [''c''])]\<rparr> ''c'') = [''b'', ''a'']
   \<and> {p. (''c'', p) \<in> (prereq_rel
     \<lparr>topics = [(''a'', new_topic ''a'' ''A'' ''math''), (''b'', new_topic ''b'' ''B'' ''math''),
                (''c'', new_topic ''c'' ''C'' ''math'')],
      prerequisites = [(''b'', [''a'']), (''c'', [''b''])],
      dependents = [(''a'', [''b'']), (''b'', [''c''])]\<rparr>)\<^sup>+} = {''a'', ''b''}"
proof -
  let ?g = "\<lparr>topics = [(''a'', new_topic ''a'' ''A'' ''math''), (''b'', new_topic ''b'' ''B'' ''math''),
                (''c'', new_topic ''c'' ''C'' ''math'')],
      prerequisites = [(''b'', [''a'']), (''c'', [''b''])],
      dependents = [(''a'', [''b'']), (''b'', [''c''])]\<rparr>"
  have rel: "prereq_rel ?g = {(''b'', ''a''), (''c'', ''b'')}"
    by (auto simp: prereq_rel_def get_or_empty_def split: if_splits)
  have drel: "dependent_rel ?g = {(''a'', ''b''), (''b'', ''c'')}"
    by (auto simp: dependent_rel_def get_or_empty_def split: if_splits)
  have wf: "well_formed ?g"
    unfolding well_formed_def rel drel
    by (auto simp: new_topic_def get_or_empty_def)
  have ac: "acyclic (prereq_rel ?g)"
    unfolding rel
    by (rule acyclicI_order [where f = "\<lambda>s. if s = ''a'' then (0::nat) else if s = ''b'' then 1 else 2"])
       auto
  have ev: "map id' (get_all_prerequisites ?g ''c'') = [''b'', ''a'']"
    by (simp add: get_all_prerequisites_def all_prerequisite_ids_def get_or_empty_def
        set_add_def map_filter_simps new_topic_def)
  note closure = get_all_prerequisites_closure [OF wf ac, of "''c''"]
  have "{p. (''c'', p) \<in> (prereq_rel ?g)\<^sup>+} = set [''b'', ''a'']"
    using closure [THEN conjunct1] unfolding ev by (rule sym)
  then have "{p. (''c'', p) \<in> (prereq_rel ?g)\<^sup>+} = {''a'', ''b''}"
    by (simp only: list.set insert_commute)
  with wf ac ev show ?thesis by (intro conjI)
qed


section \<open>FIRe ancestor weights\<close>

lemma set_set_update: "set (set_update s xs) = set s \<union> set xs"
  unfolding set_update_def by (induction xs arbitrary: s) (auto simp: set_add_def)

lemma set_next_level:
  "set (foldl (\<lambda>s pid. set_update s (get_or_empty (prerequisites g) pid)) acc lv)
     = set acc \<union> prereq_rel g `` set lv"
  by (induction lv arbitrary: acc) (auto simp: set_set_update prereq_rel_def)

lemma map_of_level_weights:
  "map_of (foldl (\<lambda>w pid. if pid \<notin> fst ` set w then AList.update pid cw w else w) w lv) x
     = (case map_of w x of Some v \<Rightarrow> Some v | None \<Rightarrow> if x \<in> set lv then Some cw else None)"
proof (induction lv arbitrary: w)
  case Nil
  then show ?case by (simp split: option.splits)
next
  case (Cons a lv)
  show ?case
  proof (cases "a \<in> fst ` set w")
    case True
    then obtain v where "map_of w a = Some v"
      by (metis domD dom_map_of_conv_image_fst)
    with True Cons.IH [of w] show ?thesis by (auto split: option.splits)
  next
    case False
    then have "map_of w a = None" by (simp add: map_of_eq_None_iff)
    with False Cons.IH [of "AList.update a cw w"] show ?thesis
      by (auto simp: update_conv' split: option.splits)
  qed
qed

lemma relpow_Image_shift: "(r ^^ d) `` (r `` S) = (r ^^ Suc d) `` S"
proof -
  have "r ^^ Suc d = r O r ^^ d" by (simp add: relpow_commute)
  then show ?thesis by (simp only: relcomp_Image)
qed

lemma fire_loop_kept:
  "map_of w x = Some v \<Longrightarrow> map_of (fire_loop g n w cw lv) x = Some v"
proof (induction n arbitrary: w cw lv)
  case 0
  then show ?case by simp
next
  case (Suc n)
  let ?w' = "foldl (\<lambda>w pid. if pid \<notin> fst ` set w then AList.update pid cw w else w) w lv"
  have "map_of ?w' x = Some v" using Suc.prems by (simp add: map_of_level_weights)
  from Suc.IH [OF this] Suc.prems show ?case by (simp add: Let_def)
qed

lemma fire_loop_first:
  "map_of w x = None \<Longrightarrow> d < n \<Longrightarrow> x \<in> (prereq_rel g ^^ d) `` set lv \<Longrightarrow>
   \<forall>d' < d. x \<notin> (prereq_rel g ^^ d') `` set lv \<Longrightarrow>
   map_of (fire_loop g n w cw lv) x = Some (cw * (1 / 2) ^ d)"
proof (induction n arbitrary: w cw lv d)
  case 0
  then show ?case by simp
next
  case (Suc n)
  let ?w' = "foldl (\<lambda>w pid. if pid \<notin> fst ` set w then AList.update pid cw w else w) w lv"
  let ?nl = "foldl (\<lambda>s pid. set_update s (get_or_empty (prerequisites g) pid)) [] lv"
  from Suc.prems(3) have ne: "lv \<noteq> []" by auto
  have run: "fire_loop g (Suc n) w cw lv = fire_loop g n ?w' (cw * 0.5) ?nl"
    using ne by (simp add: Let_def)
  have nl: "set ?nl = prereq_rel g `` set lv" by (simp add: set_next_level)
  show ?case
  proof (cases d)
    case 0
    with Suc.prems(3) have "x \<in> set lv" by simp
    with Suc.prems(1) have "map_of ?w' x = Some cw" by (simp add: map_of_level_weights)
    from fire_loop_kept [OF this, of g n "cw * 0.5" ?nl] show ?thesis
      unfolding run 0 by simp
  next
    case (Suc d0)
    with Suc.prems(4) have "x \<notin> set lv" by force
    with Suc.prems(1) have a: "map_of ?w' x = None" by (simp add: map_of_level_weights)
    have b: "d0 < n" using Suc.prems(2) Suc by simp
    have c: "x \<in> (prereq_rel g ^^ d0) `` set ?nl"
      using Suc.prems(3) unfolding nl relpow_Image_shift Suc .
    have e: "\<forall>d' < d0. x \<notin> (prereq_rel g ^^ d') `` set ?nl"
      unfolding nl relpow_Image_shift
    proof (intro allI impI)
      fix d' assume "d' < d0"
      then have "Suc d' < d" using Suc by simp
      with Suc.prems(4) show "x \<notin> (prereq_rel g ^^ Suc d') `` set lv" by blast
    qed
    from Suc.IH [OF a b c e] show ?thesis unfolding run Suc by simp
  qed
qed

lemma fire_loop_absent:
  "map_of w x = None \<Longrightarrow> \<forall>d < n. x \<notin> (prereq_rel g ^^ d) `` set lv \<Longrightarrow>
   map_of (fire_loop g n w cw lv) x = None"
proof (induction n arbitrary: w cw lv)
  case 0
  then show ?case by simp
next
  case (Suc n)
  let ?w' = "foldl (\<lambda>w pid. if pid \<notin> fst ` set w then AList.update pid cw w else w) w lv"
  let ?nl = "foldl (\<lambda>s pid. set_update s (get_or_empty (prerequisites g) pid)) [] lv"
  have nl: "set ?nl = prereq_rel g `` set lv" by (simp add: set_next_level)
  from Suc.prems(2) have "x \<notin> (prereq_rel g ^^ 0) `` set lv" by blast
  then have "x \<notin> set lv" by simp
  with Suc.prems(1) have a: "map_of ?w' x = None" by (simp add: map_of_level_weights)
  have e: "\<forall>d < n. x \<notin> (prereq_rel g ^^ d) `` set ?nl"
    unfolding nl relpow_Image_shift
  proof (intro allI impI)
    fix d assume "d < n"
    then have "Suc d < Suc n" by simp
    with Suc.prems(2) show "x \<notin> (prereq_rel g ^^ Suc d) `` set lv" by blast
  qed
  from Suc.IH [OF a e] Suc.prems(1) show ?case by (simp add: Let_def)
qed

lemma direct_prerequisites_Image:
  "set (get_or_empty (prerequisites g) t) = prereq_rel g `` {t}"
  by (auto simp: prereq_rel_def)

lemma fire_first_encounter:
  assumes "(t, x) \<in> prereq_rel g ^^ Suc d" and "d < nat md"
    and "\<forall>d' < d. (t, x) \<notin> prereq_rel g ^^ Suc d'"
  shows "map_of (get_fire_ancestors g t md) x = Some ((1 / 2) ^ Suc d)"
proof -
  have a: "x \<in> (prereq_rel g ^^ d) `` set (get_or_empty (prerequisites g) t)"
    unfolding direct_prerequisites_Image relpow_Image_shift using assms(1) by blast
  have b: "\<forall>d' < d. x \<notin> (prereq_rel g ^^ d') `` set (get_or_empty (prerequisites g) t)"
    unfolding direct_prerequisites_Image relpow_Image_shift using assms(3) by blast
  have "map_of ([] :: (topic_id \<times> real) list) x = None" by simp
  from fire_loop_first [OF this assms(2) a b, of "0.5"]
  show ?thesis by (simp add: get_fire_ancestors_def)
qed

lemma fire_beyond_depth:
  assumes "\<forall>d < nat md. (t, x) \<notin> prereq_rel g ^^ Suc d"
  shows "map_of (get_fire_ancestors g t md) x = None"
proof -
  have b: "\<forall>d < nat md. x \<notin> (prereq_rel g ^^ d) `` set (get_or_empty (prerequisites g) t)"
    unfolding direct_prerequisites_Image relpow_Image_shift using assms by blast
  have "map_of ([] :: (topic_id \<times> real) list) x = None" by simp
  from fire_loop_absent [OF this b, of "0.5"]
  show ?thesis by (simp add: get_fire_ancestors_def)
qed

lemma fire_chain:
  assumes "get_or_empty (prerequisites g) T = [P1]"
    and "get_or_empty (prerequisites g) P1 = [P2]"
    and "get_or_empty (prerequisites g) P2 = [P3]"
    and "get_or_empty (prerequisites g) P3 = [P4]"
    and "get_or_empty (prerequisites g) P4 = [P5]"
    and "distinct [P1, P2, P3, P4, P5]"
  shows "get_fire_ancestors g T 4 = [(P1, 1 / 2), (P2, 1 / 4), (P3, 1 / 8), (P4, 1 / 16)]"
proof -
  show ?thesis
    using assms(6)
    by (auto simp: get_fire_ancestors_def eval_nat_numeral assms(1-5) set_update_def
        set_add_def Let_def)
qed

text \<open>
  C6. On a linear chain \<open>T \<leftarrow> P1 \<leftarrow> P2 \<leftarrow> P3 \<leftarrow> P4 \<leftarrow> P5\<close> of distinct prerequisites and
  with \<open>max_depth = 4\<close>, \<open>get_fire_ancestors\<close> returns exactly the weights \<open>1/2, 1/4, 1/8,
  1/16\<close> for \<open>P1 .. P4\<close> and no entry for \<open>P5\<close>. In every graph, an id first reached from
  the topic by \<open>d + 1\<close> prerequisite steps, with \<open>d < max_depth\<close>, has the weight
  \<open>(1/2) ^ (d + 1)\<close> of that first depth, and an id not reached within \<open>max_depth\<close> steps
  has no entry.
\<close>

theorem get_fire_ancestors_weights:
  "(get_or_empty (prerequisites g) T = [P1] \<and> get_or_empty (prerequisites g) P1 = [P2]
      \<and> get_or_empty (prerequisites g) P2 = [P3] \<and> get_or_empty (prerequisites g) P3 = [P4]
      \<and> get_or_empty (prerequisites g) P4 = [P5] \<and> distinct [P1, P2, P3, P4, P5]
    \<longrightarrow> get_fire_ancestors g T 4 = [(P1, 1 / 2), (P2, 1 / 4), (P3, 1 / 8), (P4, 1 / 16)]
        \<and> map_of (get_fire_ancestors g T 4) P5 = None)
   \<and> ((t, x) \<in> prereq_rel g ^^ Suc d \<and> d < nat md \<and> (\<forall>d' < d. (t, x) \<notin> prereq_rel g ^^ Suc d')
    \<longrightarrow> map_of (get_fire_ancestors g t md) x = Some ((1 / 2) ^ Suc d))
   \<and> ((\<forall>d < nat md. (t, x) \<notin> prereq_rel g ^^ Suc d)
    \<longrightarrow> map_of (get_fire_ancestors g t md) x = None)"
proof (intro conjI impI)
  assume h: "get_or_empty (prerequisites g) T = [P1] \<and> get_or_empty (prerequisites g) P1 = [P2]
      \<and> get_or_empty (prerequisites g) P2 = [P3] \<and> get_or_empty (prerequisites g) P3 = [P4]
      \<and> get_or_empty (prerequisites g) P4 = [P5] \<and> distinct [P1, P2, P3, P4, P5]"
  then have c: "get_fire_ancestors g T 4 = [(P1, 1 / 2), (P2, 1 / 4), (P3, 1 / 8), (P4, 1 / 16)]"
    using fire_chain [of g T P1 P2 P3 P4 P5] by blast
  then show "get_fire_ancestors g T 4 = [(P1, 1 / 2), (P2, 1 / 4), (P3, 1 / 8), (P4, 1 / 16)]" .
  show "map_of (get_fire_ancestors g T 4) P5 = None" using h unfolding c by auto
next
  assume "(t, x) \<in> prereq_rel g ^^ Suc d \<and> d < nat md
      \<and> (\<forall>d' < d. (t, x) \<notin> prereq_rel g ^^ Suc d')"
  then show "map_of (get_fire_ancestors g t md) x = Some ((1 / 2) ^ Suc d)"
    by (intro fire_first_encounter) simp_all
next
  assume "\<forall>d < nat md. (t, x) \<notin> prereq_rel g ^^ Suc d"
  then show "map_of (get_fire_ancestors g t md) x = None" by (rule fire_beyond_depth)
qed

theorem get_fire_ancestors_weights_witness:
  "get_fire_ancestors
     \<lparr>topics = [], prerequisites = [(''t'', [''p1'']), (''p1'', [''p2'']), (''p2'', [''p3'']),
        (''p3'', [''p4'']), (''p4'', [''p5''])], dependents = []\<rparr> ''t'' 4
     = [(''p1'', 1 / 2), (''p2'', 1 / 4), (''p3'', 1 / 8), (''p4'', 1 / 16)]
   \<and> map_of (get_fire_ancestors
     \<lparr>topics = [], prerequisites = [(''t'', [''p1'']), (''p1'', [''p2'']), (''p2'', [''p3'']),
        (''p3'', [''p4'']), (''p4'', [''p5''])], dependents = []\<rparr> ''t'' 4) ''p5'' = None
   \<and> map_of (get_fire_ancestors
     \<lparr>topics = [], prerequisites = [(''t'', [''a'', ''b'']), (''a'', [''b''])],
      dependents = []\<rparr> ''t'' 4) ''b'' = Some (1 / 2)"
proof -
  let ?g = "\<lparr>topics = [], prerequisites = [(''t'', [''p1'']), (''p1'', [''p2'']), (''p2'', [''p3'']),
        (''p3'', [''p4'']), (''p4'', [''p5''])], dependents = []\<rparr> :: KnowledgeGraph"
  let ?h = "\<lparr>topics = [], prerequisites = [(''t'', [''a'', ''b'']), (''a'', [''b''])],
      dependents = []\<rparr> :: KnowledgeGraph"
  have a: "get_or_empty (prerequisites ?g) ''t'' = [''p1''] \<and> get_or_empty (prerequisites ?g) ''p1'' = [''p2'']
      \<and> get_or_empty (prerequisites ?g) ''p2'' = [''p3''] \<and> get_or_empty (prerequisites ?g) ''p3'' = [''p4'']
      \<and> get_or_empty (prerequisites ?g) ''p4'' = [''p5''] \<and> distinct [''p1'', ''p2'', ''p3'', ''p4'', ''p5'']"
    by (simp add: get_or_empty_def)
  have b: "(''t'', ''b'') \<in> prereq_rel ?h ^^ Suc 0 \<and> 0 < nat 4
      \<and> (\<forall>d' < 0. (''t'', ''b'') \<notin> prereq_rel ?h ^^ Suc d')"
    by (simp add: prereq_rel_def get_or_empty_def)
  from get_fire_ancestors_weights [of ?g "''t''" "''p1''" "''p2''" "''p3''" "''p4''" "''p5''"] a
    get_fire_ancestors_weights [of ?h "''t''" "''p1''" "''p2''" "''p3''" "''p4''" "''p5''" "''t''" "''b''" 0 4] b
  show ?thesis by simp
qed

section \<open>Learning paths\<close>

lemma release_dependent_step:
  "\<exists>d1 q1. release_dependent (d, q) x = (d1, q1)
     \<and> fst ` set d1 = fst ` set d
     \<and> map_of d1 = (map_of d)(x := map_option (\<lambda>n. n - 1) (map_of d x))
     \<and> q1 = q @ (if map_of d x = Some 1 then [x] else [])"
proof (cases "x \<in> fst ` set d")
  case True
  then obtain v where v: "map_of d x = Some v"
    by (metis domD dom_map_of_conv_image_fst)
  have k: "fst ` set (AList.map_entry x (\<lambda>n. n - 1) d) = fst ` set d"
    by (metis dom_map_entry dom_map_of_conv_image_fst)
  have m: "map_of (AList.map_entry x (\<lambda>n. n - 1) d) = (map_of d)(x \<mapsto> v - 1)"
    by (simp add: map_of_map_entry v)
  show ?thesis using True v k m by (auto simp: Let_def)
next
  case False
  then have "map_of d x = None" by (simp add: map_of_eq_None_iff)
  with False show ?thesis by auto
qed

lemma release_dependents:
  "distinct xs \<Longrightarrow>
   \<exists>d' q'. foldl release_dependent (d, q) xs = (d', q')
     \<and> fst ` set d' = fst ` set d
     \<and> (\<forall>k. map_of d' k =
           (if k \<in> set xs then map_option (\<lambda>n. n - 1) (map_of d k) else map_of d k))
     \<and> q' = q @ filter (\<lambda>x. map_of d x = Some 1) xs"
proof (induction xs arbitrary: d q)
  case Nil
  then show ?case by simp
next
  case (Cons x xs)
  from release_dependent_step [of d q x] obtain d1 q1
    where s: "release_dependent (d, q) x = (d1, q1)"
      and k1: "fst ` set d1 = fst ` set d"
      and m1: "map_of d1 = (map_of d)(x := map_option (\<lambda>n. n - 1) (map_of d x))"
      and q1: "q1 = q @ (if map_of d x = Some 1 then [x] else [])"
    by blast
  from Cons.prems have dx: "distinct xs" and nx: "x \<notin> set xs" by simp_all
  from Cons.IH [OF dx, of d1 q1] obtain d' q'
    where f: "foldl release_dependent (d1, q1) xs = (d', q')"
      and k': "fst ` set d' = fst ` set d1"
      and m': "\<forall>k. map_of d' k =
           (if k \<in> set xs then map_option (\<lambda>n. n - 1) (map_of d1 k) else map_of d1 k)"
      and q': "q' = q1 @ filter (\<lambda>x. map_of d1 x = Some 1) xs"
    by blast
  have same: "\<And>y. y \<in> set xs \<Longrightarrow> map_of d1 y = map_of d y"
    using nx by (auto simp: m1)
  have fe: "filter (\<lambda>x. map_of d1 x = Some 1) xs = filter (\<lambda>x. map_of d x = Some 1) xs"
    by (rule filter_cong) (simp_all add: same)
  have "foldl release_dependent (d, q) (x # xs) = (d', q')"
    by (simp only: foldl_Cons s f)
  moreover have "fst ` set d' = fst ` set d" using k' k1 by simp
  moreover have "\<forall>k. map_of d' k =
      (if k \<in> set (x # xs) then map_option (\<lambda>n. n - 1) (map_of d k) else map_of d k)"
  proof
    fix k
    show "map_of d' k =
      (if k \<in> set (x # xs) then map_option (\<lambda>n. n - 1) (map_of d k) else map_of d k)"
    proof (cases "k \<in> set xs")
      case True
      then show ?thesis using m' same by simp
    next
      case False
      then show ?thesis using m' by (simp add: m1)
    qed
  qed
  moreover have "q' = q @ filter (\<lambda>x. map_of d x = Some 1) (x # xs)"
    by (simp add: q' q1 fe)
  ultimately show ?case by blast
qed

lemma filter_drop_one:
  "distinct xs \<Longrightarrow> c \<in> set xs \<Longrightarrow> P c \<Longrightarrow>
   length (filter (\<lambda>p. P p \<and> p \<noteq> c) xs) + 1 = length (filter P xs)"
proof (induction xs)
  case Nil
  then show ?case by simp
next
  case (Cons a xs)
  show ?case
  proof (cases "a = c")
    case True
    with Cons.prems have "c \<notin> set xs" by simp
    then have "filter (\<lambda>p. P p \<and> p \<noteq> c) xs = filter P xs"
      by (intro filter_cong) auto
    with True Cons.prems show ?thesis by simp
  next
    case False
    with Cons show ?thesis by auto
  qed
qed

lemma pending_emit:
  assumes "distinct (get_or_empty (prerequisites g) k)" and "c \<in> S" and "c \<notin> E"
  shows "pending g S (insert c E) k =
     (if c \<in> set (get_or_empty (prerequisites g) k) then pending g S E k - 1 else pending g S E k)"
proof -
  have e: "(\<lambda>p. p \<in> S \<and> p \<notin> insert c E) = (\<lambda>p. (p \<in> S \<and> p \<notin> E) \<and> p \<noteq> c)" by auto
  show ?thesis
  proof (cases "c \<in> set (get_or_empty (prerequisites g) k)")
    case True
    from filter_drop_one [OF assms(1) True, of "\<lambda>p. p \<in> S \<and> p \<notin> E"] assms(2,3) True
    show ?thesis unfolding pending_def e by simp
  next
    case False
    then have "filter (\<lambda>p. (p \<in> S \<and> p \<notin> E) \<and> p \<noteq> c) (get_or_empty (prerequisites g) k)
        = filter (\<lambda>p. p \<in> S \<and> p \<notin> E) (get_or_empty (prerequisites g) k)"
      by (intro filter_cong) auto
    with False show ?thesis unfolding pending_def e by simp
  qed
qed

lemma pending_zero_iff:
  "pending g S E k = 0 \<longleftrightarrow> (\<forall>p \<in> set (get_or_empty (prerequisites g) k). p \<in> S \<longrightarrow> p \<in> E)"
  by (auto simp: pending_def filter_empty_conv)

lemma emitted_pending_zero:
  assumes "emitted_after_prerequisites g S E" and "k \<in> set E"
  shows "pending g S (set E) k = 0"
proof -
  from assms(2) obtain xs ys where e: "E = xs @ k # ys" by (meson split_list)
  with assms(1) have "\<forall>p \<in> set (get_or_empty (prerequisites g) k). p \<in> S \<longrightarrow> p \<in> set xs"
    unfolding emitted_after_prerequisites_def by blast
  then show ?thesis unfolding pending_zero_iff e by auto
qed

lemma emitted_snoc:
  assumes "emitted_after_prerequisites g S E" and "pending g S (set E) c = 0"
  shows "emitted_after_prerequisites g S (E @ [c])"
  unfolding emitted_after_prerequisites_def
proof (intro allI impI ballI)
  fix xs x ys p
  assume eq: "E @ [c] = xs @ x # ys"
    and p: "p \<in> set (get_or_empty (prerequisites g) x)" and pS: "p \<in> S"
  show "p \<in> set xs"
  proof (cases ys rule: rev_cases)
    case Nil
    with eq have "xs = E" "x = c" by simp_all
    with assms(2) p pS show ?thesis by (simp add: pending_zero_iff)
  next
    case (snoc ys' y)
    with eq have "E = xs @ x # ys'" by simp
    with assms(1) p pS show ?thesis unfolding emitted_after_prerequisites_def by blast
  qed
qed

lemma mirror_dependents:
  assumes "well_formed g"
  shows "k \<in> set (get_or_empty (dependents g) c) \<longleftrightarrow> c \<in> set (get_or_empty (prerequisites g) k)"
proof -
  from assms have "dependent_rel g = (prereq_rel g)\<inverse>" by (simp add: well_formed_def)
  then have "(c, k) \<in> dependent_rel g \<longleftrightarrow> (k, c) \<in> prereq_rel g" by auto
  then show ?thesis by (simp add: dependent_rel_def prereq_rel_def)
qed

lemma sort_invariant_step:
  assumes wf: "well_formed g"
    and inv: "sort_invariant g S d (c # q) E"
    and fold: "foldl release_dependent (d, q) (get_or_empty (dependents g) c) = (d', q')"
  shows "sort_invariant g S d' q' (E @ [c])"
proof -
  let ?deps = "get_or_empty (dependents g) c"
  from inv have keys: "fst ` set d = S"
    and deg: "\<forall>k \<in> S. map_of d k = Some (pending g S (set E) k)"
    and dist: "distinct (E @ c # q)" and sub: "set E \<union> set (c # q) \<subseteq> S"
    and zero: "\<forall>k \<in> set (c # q). pending g S (set E) k = 0"
    and ord: "emitted_after_prerequisites g S E"
    by (simp_all add: sort_invariant_def)
  from wf have dd: "distinct ?deps" and dp: "\<And>k. distinct (get_or_empty (prerequisites g) k)"
    by (simp_all add: well_formed_def)
  from release_dependents [OF dd, of d q] fold
  have keys': "fst ` set d' = fst ` set d"
    and deg': "\<And>k. map_of d' k =
           (if k \<in> set ?deps then map_option (\<lambda>n. n - 1) (map_of d k) else map_of d k)"
    and q': "q' = q @ filter (\<lambda>x. map_of d x = Some 1) ?deps"
    by auto
  have cS: "c \<in> S" and cE: "c \<notin> set E" using sub dist by auto
  have pend: "\<And>k. pending g S (set (E @ [c])) k =
     (if k \<in> set ?deps then pending g S (set E) k - 1 else pending g S (set E) k)"
    using pending_emit [OF dp cS cE] by (simp add: mirror_dependents [OF wf])
  have new: "\<And>x. x \<in> set (filter (\<lambda>x. map_of d x = Some 1) ?deps) \<Longrightarrow>
      x \<in> S \<and> pending g S (set E) x = 1 \<and> x \<in> set ?deps"
  proof -
    fix x assume "x \<in> set (filter (\<lambda>x. map_of d x = Some 1) ?deps)"
    then have m: "map_of d x = Some 1" and xd: "x \<in> set ?deps" by simp_all
    from m have "x \<in> fst ` set d" by (metis domI dom_map_of_conv_image_fst)
    then have "x \<in> S" using keys by simp
    with deg m xd show "x \<in> S \<and> pending g S (set E) x = 1 \<and> x \<in> set ?deps" by auto
  qed
  have old0: "\<And>k. k \<in> set E \<union> set (c # q) \<Longrightarrow> pending g S (set E) k = 0"
    using zero emitted_pending_zero [OF ord] by blast
  have a: "fst ` set d' = S" using keys keys' by simp
  have b: "\<forall>k \<in> S. map_of d' k = Some (pending g S (set (E @ [c])) k)"
    unfolding pend using deg deg' by simp
  have c1: "distinct (filter (\<lambda>x. map_of d x = Some 1) ?deps)" using dd by simp
  have c2: "set (filter (\<lambda>x. map_of d x = Some 1) ?deps) \<inter> (set E \<union> set (c # q)) = {}"
  proof (rule ccontr)
    assume "set (filter (\<lambda>x. map_of d x = Some 1) ?deps) \<inter> (set E \<union> set (c # q)) \<noteq> {}"
    then obtain x where x: "x \<in> set (filter (\<lambda>x. map_of d x = Some 1) ?deps)"
      and y: "x \<in> set E \<union> set (c # q)" by blast
    from new [OF x] old0 [OF y] show False by simp
  qed
  have c3: "set (E @ c # q) \<inter> set (filter (\<lambda>x. map_of d x = Some 1) ?deps) = {}"
    using c2 by (simp add: Int_commute)
  have "distinct ((E @ c # q) @ filter (\<lambda>x. map_of d x = Some 1) ?deps)"
    by (subst distinct_append) (intro conjI dist c1 c3)
  then have c: "distinct ((E @ [c]) @ q')" by (simp add: q')
  have "set (filter (\<lambda>x. map_of d x = Some 1) ?deps) \<subseteq> S"
  proof
    fix x assume "x \<in> set (filter (\<lambda>x. map_of d x = Some 1) ?deps)"
    from new [OF this] show "x \<in> S" by simp
  qed
  then have e: "set (E @ [c]) \<union> set q' \<subseteq> S"
    using sub by (simp add: q')
  have f: "\<forall>k \<in> set q'. pending g S (set (E @ [c])) k = 0"
  proof
    fix k assume "k \<in> set q'"
    then consider "k \<in> set q" | "k \<in> set (filter (\<lambda>x. map_of d x = Some 1) ?deps)"
      unfolding q' by auto
    then show "pending g S (set (E @ [c])) k = 0"
    proof cases
      case 1
      then have "pending g S (set E) k = 0" using zero by simp
      then show ?thesis unfolding pending_zero_iff by auto
    next
      case 2
      from new [OF 2] show ?thesis unfolding pend by simp
    qed
  qed
  have h: "emitted_after_prerequisites g S (E @ [c])"
    using emitted_snoc [OF ord] zero by simp
  show ?thesis unfolding sort_invariant_def by (intro conjI a b c e f h)
qed

lemma topological_loop_sorted:
  "well_formed g \<Longrightarrow> \<forall>k \<in> S. map_of (topics g) k \<noteq> None \<Longrightarrow>
   sort_invariant g S d q (map id' r) \<Longrightarrow>
     \<exists>r'. topological_loop g d q r = Inr r'
       \<and> distinct (map id' r') \<and> set (map id' r') \<subseteq> S
       \<and> emitted_after_prerequisites g S (map id' r')"
proof (induction g d q r rule: topological_loop.induct)
  case (1 self in_degree result)
  then show ?case by (simp add: sort_invariant_def)
next
  case (2 self in_degree current queue result)
  from "2.prems"(3) have "current \<in> S" by (simp add: sort_invariant_def)
  with "2.prems"(2) obtain t where t: "map_of (topics self) current = Some t" by auto
  from registered_lookup [OF "2.prems"(1) t] have idt: "id' t = current" .
  obtain d' q' where f: "foldl release_dependent (in_degree, queue)
      (get_or_empty (dependents self) current) = (d', q')"
    by (cases "foldl release_dependent (in_degree, queue)
      (get_or_empty (dependents self) current)")
  from sort_invariant_step [OF "2.prems"(1,3) f]
  have "sort_invariant self S d' q' (map id' (result @ [t]))" by (simp add: idt)
  from "2.IH" [OF t f [symmetric] "2.prems"(1,2) this]
  show ?case by (simp add: t f)
qed

lemma zero_in_degree:
  "distinct (map fst acc) \<Longrightarrow>
   distinct (map fst (foldl (\<lambda>d tid. AList.update tid (0::int) d) acc ids))
   \<and> fst ` set (foldl (\<lambda>d tid. AList.update tid (0::int) d) acc ids) = fst ` set acc \<union> set ids
   \<and> (\<forall>k. map_of (foldl (\<lambda>d tid. AList.update tid (0::int) d) acc ids) k =
          (if k \<in> set ids then Some 0 else map_of acc k))"
proof (induction ids arbitrary: acc)
  case Nil
  then show ?case by simp
next
  case (Cons a ids)
  let ?acc = "AList.update a (0::int) acc"
  let ?r = "foldl (\<lambda>d tid. AList.update tid (0::int) d) ?acc ids"
  have d: "distinct (map fst ?acc)"
    using Cons.prems by (rule distinct_update)
  have k: "fst ` set ?acc = insert a (fst ` set acc)"
    by (simp add: dom_update)
  have m: "\<And>x. map_of ?acc x = (if x = a then Some 0 else map_of acc x)"
    by (simp add: update_conv')
  from Cons.IH [OF d]
  have i1: "distinct (map fst ?r)"
    and i2: "fst ` set ?r = fst ` set ?acc \<union> set ids"
    and i3: "\<And>x. map_of ?r x = (if x \<in> set ids then Some 0 else map_of ?acc x)"
    by blast+
  have e: "foldl (\<lambda>d tid. AList.update tid (0::int) d) acc (a # ids) = ?r" by simp
  have j2: "fst ` set ?r = fst ` set acc \<union> set (a # ids)"
    unfolding i2 k by auto
  have j3: "\<forall>x. map_of ?r x = (if x \<in> set (a # ids) then Some 0 else map_of acc x)"
    unfolding i3 m by simp
  show ?case unfolding e by (intro conjI i1 j2 j3)
qed

lemma map_fst_map_entry: "map fst (AList.map_entry k f d) = map fst d"
  by (induction d) auto

lemma count_prerequisites_effect:
  "map fst (foldl (\<lambda>d pid. if P pid then AList.map_entry tid (\<lambda>n. n + 1) d else d) d ps) = map fst d
   \<and> (\<forall>k. map_of (foldl (\<lambda>d pid. if P pid then AList.map_entry tid (\<lambda>n. n + 1) d else d) d ps) k =
          (if k = tid then map_option (\<lambda>n. n + int (length (filter P ps))) (map_of d tid)
           else map_of d k))"
proof (induction ps arbitrary: d)
  case Nil
  then show ?case by (simp add: option.map_ident)
next
  case (Cons p ps)
  show ?case
  proof (cases "P p")
    case True
    from Cons.IH [of "AList.map_entry tid (\<lambda>n. n + 1) d"] True
    show ?thesis
      by (auto simp: map_fst_map_entry map_of_map_entry split: option.splits)
  next
    case False
    with Cons.IH [of d] show ?thesis by simp
  qed
qed

lemma in_degree_counts:
  "distinct ts \<Longrightarrow>
   map fst (foldl (count_prerequisites g ids) d ts) = map fst d
   \<and> (\<forall>k. map_of (foldl (count_prerequisites g ids) d ts) k =
          (if k \<in> set ts
           then map_option (\<lambda>n. n + pending g (set ids) {} k) (map_of d k)
           else map_of d k))"
proof (induction ts arbitrary: d)
  case Nil
  then show ?case by simp
next
  case (Cons t ts)
  let ?d1 = "count_prerequisites g ids d t"
  from count_prerequisites_effect [of "\<lambda>pid. pid \<in> set ids" t d "get_or_empty (prerequisites g) t"]
  have k1: "map fst ?d1 = map fst d"
    and m1: "\<And>k. map_of ?d1 k =
      (if k = t then map_option (\<lambda>n. n + pending g (set ids) {} t) (map_of d t) else map_of d k)"
    by (simp_all add: count_prerequisites_def pending_def)
  from Cons.prems have dt: "distinct ts" and nt: "t \<notin> set ts" by simp_all
  from Cons.IH [OF dt, of ?d1]
  have k2: "map fst (foldl (count_prerequisites g ids) ?d1 ts) = map fst ?d1"
    and m2: "\<And>k. map_of (foldl (count_prerequisites g ids) ?d1 ts) k =
          (if k \<in> set ts
           then map_option (\<lambda>n. n + pending g (set ids) {} k) (map_of ?d1 k)
           else map_of ?d1 k)"
    by simp_all
  show ?case using nt by (auto simp: k1 k2 m1 m2)
qed

lemma initial_in_degree_props:
  assumes "distinct ids"
  shows "distinct (map fst (initial_in_degree g ids))"
    and "fst ` set (initial_in_degree g ids) = set ids"
    and "\<forall>k \<in> set ids. map_of (initial_in_degree g ids) k = Some (pending g (set ids) {} k)"
proof -
  let ?z = "foldl (\<lambda>d tid. AList.update tid (0::int) d) [] ids"
  from zero_in_degree [of "[]" ids]
  have z: "distinct (map fst ?z)" "fst ` set ?z = set ids"
    "\<And>k. map_of ?z k = (if k \<in> set ids then Some 0 else None)"
    by simp_all
  from in_degree_counts [OF assms, of g ids ?z]
  have k: "map fst (initial_in_degree g ids) = map fst ?z"
    and m: "\<And>k. map_of (initial_in_degree g ids) k =
          (if k \<in> set ids
           then map_option (\<lambda>n. n + pending g (set ids) {} k) (map_of ?z k)
           else map_of ?z k)"
    by (simp_all add: initial_in_degree_def)
  show "distinct (map fst (initial_in_degree g ids))" using k z(1) by simp
  have "set (map fst (initial_in_degree g ids)) = set (map fst ?z)" using k by simp
  then show "fst ` set (initial_in_degree g ids) = set ids" using z(2) by simp
  show "\<forall>k \<in> set ids. map_of (initial_in_degree g ids) k = Some (pending g (set ids) {} k)"
    by (simp add: m z(3))
qed

lemma topological_sort_sorted:
  assumes "well_formed g" and "distinct ids" and "\<forall>k \<in> set ids. map_of (topics g) k \<noteq> None"
  shows "\<exists>r. topological_sort g ids = Inr r
       \<and> distinct (map id' r) \<and> set (map id' r) \<subseteq> set ids
       \<and> emitted_after_prerequisites g (set ids) (map id' r)"
proof -
  let ?d = "initial_in_degree g ids"
  let ?q = "map fst (filter (\<lambda>kv. snd kv = 0) ?d)"
  note p = initial_in_degree_props [OF assms(2), of g]
  have dq: "distinct ?q" using p(1) by (rule distinct_map_filter)
  have mq: "\<And>k. k \<in> set ?q \<Longrightarrow> map_of ?d k = Some 0"
  proof -
    fix k assume "k \<in> set ?q"
    then have "(k, 0) \<in> set ?d" by auto
    with p(1) show "map_of ?d k = Some 0" by simp
  qed
  have sq: "set ?q \<subseteq> set ids" using p(2) by auto
  have zq: "\<forall>k \<in> set ?q. pending g (set ids) (set []) k = 0"
  proof
    fix k assume k: "k \<in> set ?q"
    with sq have "k \<in> set ids" by blast
    with p(3) mq [OF k] show "pending g (set ids) (set []) k = 0" by simp
  qed
  have e: "emitted_after_prerequisites g (set ids) []"
    by (simp add: emitted_after_prerequisites_def)
  have "sort_invariant g (set ids) ?d ?q (map id' [])"
    unfolding sort_invariant_def using p(2,3) dq sq zq e by simp
  from topological_loop_sorted [OF assms(1,3) this]
  show ?thesis by (simp add: topological_sort_def Let_def)
qed

lemma emitted_after_nth:
  assumes "emitted_after_prerequisites g S E" and "i < length E"
    and "p \<in> set (get_or_empty (prerequisites g) (E ! i))" and "p \<in> S"
  shows "\<exists>j < i. E ! j = p"
proof -
  have "E = take i E @ E ! i # drop (Suc i) E" using assms(2) by (rule id_take_nth_drop)
  with assms(1,3,4) have "p \<in> set (take i E)"
    unfolding emitted_after_prerequisites_def by blast
  then obtain j where j: "j < length (take i E)" "take i E ! j = p"
    by (auto simp: in_set_conv_nth)
  then have "j < i" "E ! j = p" by simp_all
  then show ?thesis by blast
qed

text \<open>
  C5. In a well-formed graph and for a registered target, \<open>get_learning_path\<close> returns
  a list of topics that holds no completed id and no id twice, in which every
  prerequisite of an emitted topic that is itself emitted stands at an earlier position.
\<close>

theorem get_learning_path_topological:
  assumes "well_formed g" and "map_of (topics g) target \<noteq> None"
  shows "\<exists>path. get_learning_path g target completed_ids = Inr path
      \<and> (\<forall>c \<in> set (case completed_ids of None \<Rightarrow> [] | Some c \<Rightarrow> c). c \<notin> set (map id' path))
      \<and> distinct (map id' path)
      \<and> (\<forall>i < length path.
           \<forall>p \<in> set (get_or_empty (prerequisites g) (id' (path ! i))).
             p \<in> set (map id' path) \<longrightarrow> (\<exists>j < i. id' (path ! j) = p))"
proof -
  let ?completed = "case completed_ids of None \<Rightarrow> [] | Some c \<Rightarrow> c"
  let ?needed_ids = "set_add (remdups (map id' (get_all_prerequisites g target))) target"
  let ?to_learn = "filter (\<lambda>x. x \<notin> set ?completed) ?needed_ids"
  from assms(2) obtain tt where tt: "map_of (topics g) target = Some tt" by blast
  have run: "get_learning_path g target completed_ids = topological_sort g ?to_learn"
    by (simp add: get_learning_path_def Let_def tt)
  have "distinct ?needed_ids" by (simp add: set_add_def)
  then have d: "distinct ?to_learn" by (rule distinct_filter)
  have ids: "map id' (get_all_prerequisites g target) = all_prerequisite_ids g target"
    by (rule get_all_prerequisites_ids [OF assms(1)])
  have n: "set ?needed_ids \<subseteq> insert target (set (all_prerequisite_ids g target))"
    unfolding ids by (auto simp: set_add_def)
  have reg: "\<forall>k \<in> set ?to_learn. map_of (topics g) k \<noteq> None"
  proof
    fix k assume "k \<in> set ?to_learn"
    then have "k \<in> set ?needed_ids" by (simp only: set_filter mem_Collect_eq)
    with n have "k = target \<or> k \<in> set (all_prerequisite_ids g target)" by blast
    then show "map_of (topics g) k \<noteq> None"
      using all_prerequisite_ids_registered [OF assms(1), of target] tt by auto
  qed
  have tl: "\<And>c. c \<in> set ?completed \<Longrightarrow> c \<notin> set ?to_learn"
    by (simp only: set_filter mem_Collect_eq) blast
  from topological_sort_sorted [OF assms(1) d reg] obtain path
    where r: "topological_sort g ?to_learn = Inr path"
      and dp: "distinct (map id' path)" and sp: "set (map id' path) \<subseteq> set ?to_learn"
      and ep: "emitted_after_prerequisites g (set ?to_learn) (map id' path)"
    by blast
  have a: "\<forall>c \<in> set ?completed. c \<notin> set (map id' path)" using sp tl by blast
  have b: "\<forall>i < length path.
           \<forall>p \<in> set (get_or_empty (prerequisites g) (id' (path ! i))).
             p \<in> set (map id' path) \<longrightarrow> (\<exists>j < i. id' (path ! j) = p)"
  proof (intro allI impI ballI)
    fix i p
    assume i: "i < length path"
      and p: "p \<in> set (get_or_empty (prerequisites g) (id' (path ! i)))"
      and m: "p \<in> set (map id' path)"
    from m sp have pS: "p \<in> set ?to_learn" by blast
    from i have i': "i < length (map id' path)" by simp
    from p i have p': "p \<in> set (get_or_empty (prerequisites g) (map id' path ! i))" by simp
    from emitted_after_nth [OF ep i' p' pS] obtain j where "j < i" "map id' path ! j = p"
      by blast
    with i have "j < i \<and> id' (path ! j) = p" by simp
    then show "\<exists>j < i. id' (path ! j) = p" by blast
  qed
  from r have r': "get_learning_path g target completed_ids = Inr path" by (simp only: run)
  from r' a dp b show ?thesis by (rule exI [of _ path, OF conjI [OF _ conjI [OF _ conjI]]])
qed

theorem get_learning_path_topological_witness:
  "well_formed
     \<lparr>topics = [(''a'', new_topic ''a'' ''A'' ''math''), (''b'', new_topic ''b'' ''B'' ''math''),
                (''c'', new_topic ''c'' ''C'' ''math'')],
      prerequisites = [(''b'', [''a'']), (''c'', [''b''])],
      dependents = [(''a'', [''b'']), (''b'', [''c''])]\<rparr>
   \<and> map_of (topics
     \<lparr>topics = [(''a'', new_topic ''a'' ''A'' ''math''), (''b'', new_topic ''b'' ''B'' ''math''),
                (''c'', new_topic ''c'' ''C'' ''math'')],
      prerequisites = [(''b'', [''a'']), (''c'', [''b''])],
      dependents = [(''a'', [''b'']), (''b'', [''c''])]\<rparr>) ''c'' \<noteq> None
   \<and> get_learning_path
     \<lparr>topics = [(''a'', new_topic ''a'' ''A'' ''math''), (''b'', new_topic ''b'' ''B'' ''math''),
                (''c'', new_topic ''c'' ''C'' ''math'')],
      prerequisites = [(''b'', [''a'']), (''c'', [''b''])],
      dependents = [(''a'', [''b'']), (''b'', [''c''])]\<rparr> ''c'' None
     = Inr [new_topic ''a'' ''A'' ''math'', new_topic ''b'' ''B'' ''math'',
            new_topic ''c'' ''C'' ''math'']
   \<and> (\<exists>path. get_learning_path
     \<lparr>topics = [(''a'', new_topic ''a'' ''A'' ''math''), (''b'', new_topic ''b'' ''B'' ''math''),
                (''c'', new_topic ''c'' ''C'' ''math'')],
      prerequisites = [(''b'', [''a'']), (''c'', [''b''])],
      dependents = [(''a'', [''b'']), (''b'', [''c''])]\<rparr> ''c'' (Some [''a'']) = Inr path
      \<and> ''a'' \<notin> set (map id' path) \<and> distinct (map id' path))"
proof -
  let ?g = "\<lparr>topics = [(''a'', new_topic ''a'' ''A'' ''math''), (''b'', new_topic ''b'' ''B'' ''math''),
                (''c'', new_topic ''c'' ''C'' ''math'')],
      prerequisites = [(''b'', [''a'']), (''c'', [''b''])],
      dependents = [(''a'', [''b'']), (''b'', [''c''])]\<rparr>"
  have rel: "prereq_rel ?g = {(''b'', ''a''), (''c'', ''b'')}"
    by (auto simp: prereq_rel_def get_or_empty_def split: if_splits)
  have drel: "dependent_rel ?g = {(''a'', ''b''), (''b'', ''c'')}"
    by (auto simp: dependent_rel_def get_or_empty_def split: if_splits)
  have wf: "well_formed ?g"
    unfolding well_formed_def rel drel
    by (auto simp: new_topic_def get_or_empty_def)
  have reg: "map_of (topics ?g) ''c'' \<noteq> None" by simp
  have ev: "get_learning_path ?g ''c'' None
     = Inr [new_topic ''a'' ''A'' ''math'', new_topic ''b'' ''B'' ''math'',
            new_topic ''c'' ''C'' ''math'']"
    by (simp add: get_learning_path_def get_all_prerequisites_def all_prerequisite_ids_def
        get_or_empty_def set_add_def map_filter_simps new_topic_def topological_sort_def
        initial_in_degree_def count_prerequisites_def Let_def)
  from get_learning_path_topological [OF wf reg, of "Some [''a'']"]
  have "\<exists>path. get_learning_path ?g ''c'' (Some [''a'']) = Inr path
      \<and> ''a'' \<notin> set (map id' path) \<and> distinct (map id' path)"
    by auto
  with wf reg ev show ?thesis by (intro conjI)
qed

section \<open>The operations keep a graph well formed and acyclic\<close>

lemma well_formed_empty_graph: "well_formed empty_graph \<and> acyclic (prereq_rel empty_graph)"
  by (simp add: well_formed_def empty_graph_def prereq_rel_def dependent_rel_def
      get_or_empty_def acyclic_def)

lemma well_formed_add_topic:
  assumes "well_formed g"
  shows "well_formed (add_topic g t)" and "prereq_rel (add_topic g t) = prereq_rel g"
proof -
  have r: "prereq_rel (add_topic g t) = prereq_rel g"
    and d: "dependent_rel (add_topic g t) = dependent_rel g"
    by (simp_all add: prereq_rel_def dependent_rel_def add_topic_def)
  have k: "\<forall>kt \<in> set (topics (add_topic g t)). id' (snd kt) = fst kt"
    using assms set_alist_update [of "id' t" t "topics g"]
    by (fastforce simp: well_formed_def add_topic_def)
  have m: "\<And>x. map_of (topics g) x \<noteq> None \<Longrightarrow> map_of (topics (add_topic g t)) x \<noteq> None"
    by (simp add: add_topic_def update_conv')
  have e: "\<forall>tp \<in> prereq_rel (add_topic g t).
      map_of (topics (add_topic g t)) (fst tp) \<noteq> None
      \<and> map_of (topics (add_topic g t)) (snd tp) \<noteq> None"
    unfolding r using assms m by (simp add: well_formed_def)
  have p: "prerequisites (add_topic g t) = prerequisites g"
    "dependents (add_topic g t) = dependents g"
    by (simp_all add: add_topic_def)
  show "prereq_rel (add_topic g t) = prereq_rel g" by (rule r)
  show "well_formed (add_topic g t)"
    unfolding well_formed_def r d p using assms k e [unfolded r]
    by (simp add: well_formed_def)
qed

lemma well_formed_add_prerequisite:
  assumes "well_formed g" and "acyclic (prereq_rel g)"
  shows "well_formed (snd (add_prerequisite g t p))"
    and "acyclic (prereq_rel (snd (add_prerequisite g t p)))"
proof -
  obtain e g' where a: "add_prerequisite g t p = (e, g')" by (cases "add_prerequisite g t p")
  have "well_formed g' \<and> acyclic (prereq_rel g')"
  proof (cases e)
    case (Some err)
    with a have "g' = g" by (auto simp: add_prerequisite_def split: if_splits)
    with assms show ?thesis by simp
  next
    case None
    note s = add_prerequisite_success [OF a [unfolded None]]
    have r: "prereq_rel g' = insert (t, p) (prereq_rel g)"
      by (auto simp: prereq_rel_def s(3) set_add_def split: if_splits)
    have d: "dependent_rel g' = insert (p, t) (dependent_rel g)"
      by (auto simp: dependent_rel_def s(2) set_add_def split: if_splits)
    from assms(1) have m: "dependent_rel g = (prereq_rel g)\<inverse>" by (simp add: well_formed_def)
    have w1: "\<forall>kt \<in> set (topics g'). id' (snd kt) = fst kt"
      using assms(1) by (simp add: well_formed_def s(1))
    have w2: "\<forall>tp \<in> prereq_rel g'. map_of (topics g') (fst tp) \<noteq> None
        \<and> map_of (topics g') (snd tp) \<noteq> None"
      unfolding r s(1) using assms(1) s(4,5) by (simp add: well_formed_def)
    have w3: "dependent_rel g' = (prereq_rel g')\<inverse>" unfolding r d m by auto
    have w4: "\<forall>k. distinct (get_or_empty (prerequisites g') k)"
      using assms(1) by (simp add: well_formed_def s(3) set_add_def)
    have w5: "\<forall>k. distinct (get_or_empty (dependents g') k)"
      using assms(1) by (simp add: well_formed_def s(2) set_add_def)
    have "(t, p) \<notin> (dependent_rel g)\<^sup>*" using s(6) by (simp add: would_create_cycle_iff)
    then have "(p, t) \<notin> (prereq_rel g)\<^sup>*" unfolding m by (simp add: rtrancl_converse)
    with assms(2) have "acyclic (prereq_rel g')" unfolding r by (simp add: acyclic_insert)
    with w1 w2 w3 w4 w5 show ?thesis by (simp add: well_formed_def)
  qed
  with a show "well_formed (snd (add_prerequisite g t p))"
    and "acyclic (prereq_rel (snd (add_prerequisite g t p)))" by simp_all
qed

end
